theory Spec2Isabelle
  imports Main "HOL-Library.Word"
begin

section \<open>Finite-field elements (type Zp)\<close>

text \<open>
  The Go type \<^verbatim>\<open>Zp\<close> holds two arbitrary-precision integers: the bound \<^verbatim>\<open>P\<close> of the
  field and a value \<^verbatim>\<open>Z\<close>. Arbitrary-precision integers are HOL's \<open>int\<close>.
\<close>

record zp =
  P :: int
  Z :: int

text \<open>
  The two run-time panics the arithmetic can raise: the explicit one of \<^verbatim>\<open>assertZp\<close>
  (it reports both moduli), and the division-by-zero panic of \<^verbatim>\<open>big.Int.Mod\<close> for a
  zero modulus.
\<close>

datatype zp_panic = FieldMismatch int int | DivisionByZero

text \<open>
  \<^verbatim>\<open>big.Int.Mod(x, y)\<close> is the Euclidean modulus: it panics for \<open>y = 0\<close> and
  otherwise returns the \<open>m\<close> with \<open>0 \<le> m < \<bar>y\<bar>\<close> and \<open>x = q * y + m\<close>. On \<open>int\<close>,
  \<open>mod\<close> by the positive number \<open>\<bar>y\<bar>\<close> is that \<open>m\<close>.
\<close>

definition big_Mod :: "int \<Rightarrow> int \<Rightarrow> zp_panic + int" where
  "big_Mod x y = (if y = 0 then Inl DivisionByZero else Inr (x mod \<bar>y\<bar>))"

text \<open>\<^verbatim>\<open>func (zp *Zp) normalize() { zp.Z.Mod(zp.Z, zp.P) }\<close>\<close>

definition normalize_zp :: "zp \<Rightarrow> zp_panic + zp" where
  "normalize_zp zp =
     (case big_Mod (Z zp) (P zp) of
        Inl e \<Rightarrow> Inl e
      | Inr m \<Rightarrow> Inr (zp\<lparr>Z := m\<rparr>))"

text \<open>
  \<^verbatim>\<open>NewZp(p int64, n int64)\<close>: both arguments are 64-bit signed machine integers,
  read by \<open>sint\<close>, turned into big integers and normalized.
\<close>

definition NewZp :: "64 word \<Rightarrow> 64 word \<Rightarrow> zp_panic + zp" where
  "NewZp p n = normalize_zp \<lparr>P = sint p, Z = sint n\<rparr>"

text \<open>\<^verbatim>\<open>assertZp(x, y)\<close> panics when \<^verbatim>\<open>x.P.Cmp(y.P) != 0\<close>.\<close>

definition assertZp :: "zp \<Rightarrow> zp \<Rightarrow> zp_panic option" where
  "assertZp x y = (if P x \<noteq> P y then Some (FieldMismatch (P x) (P y)) else None)"

text \<open>
  \<^verbatim>\<open>Add\<close> works on pointers and changes the receiver in place, so the objects live
  in a heap: a pointer \<^verbatim>\<open>*Zp\<close> is an address, and the heap gives the object at each
  address. Two pointers are the same object exactly when the addresses are equal. Every
  object made by \<^verbatim>\<open>NewZp\<close> has big integers of its own, so objects at different
  addresses share nothing; the pointers handed to \<^verbatim>\<open>Add\<close> are not nil.
\<close>

type_synonym zp_ptr = nat

type_synonym zp_heap = "zp_ptr \<Rightarrow> zp"

text \<open>
  \<^verbatim>\<open>func (zp *Zp) Add(values... *Zp) *Zp\<close>: for each operand in turn,
  \<^verbatim>\<open>assertZp(zp, v)\<close> compares the moduli, \<^verbatim>\<open>zp.Z.Add(zp.Z, v.Z)\<close> stores the sum in the
  receiver and \<^verbatim>\<open>zp.normalize()\<close> reduces it. Each operand is read from the heap as it
  is at that moment, so an operand that is the receiver itself is read with the
  receiver's current value. The result is the panic, if any, and the heap the call
  leaves; a call that returns, returns its receiver \<^verbatim>\<open>zp\<close>. A panic leaves in the
  receiver what was added before.
\<close>

fun Add :: "zp_heap \<Rightarrow> zp_ptr \<Rightarrow> zp_ptr list \<Rightarrow> zp_panic option \<times> zp_heap" where
  "Add h zp [] = (None, h)"
| "Add h zp (v # values) =
     (case assertZp (h zp) (h v) of
        Some e \<Rightarrow> (Some e, h)
      | None \<Rightarrow>
          (let h1 = h(zp := (h zp)\<lparr>Z := Z (h zp) + Z (h v)\<rparr>)
           in case normalize_zp (h1 zp) of
                Inl e \<Rightarrow> (Some e, h1)
              | Inr z \<Rightarrow> Add (h1(zp := z)) zp values))"

text \<open>
  The second call of a chain: \<^verbatim>\<open>a.Add(b).Add(c)\<close> is \<open>then_Add (Add h a [b]) a [c]\<close>, and
  \<^verbatim>\<open>a.Add(b.Add(c))\<close>, which evaluates its argument first, is
  \<open>then_Add (Add h b [c]) a [b]\<close>. A panic of the first call ends the chain.
\<close>

definition then_Add ::
  "zp_panic option \<times> zp_heap \<Rightarrow> zp_ptr \<Rightarrow> zp_ptr list \<Rightarrow> zp_panic option \<times> zp_heap" where
  "then_Add r zp values =
     (case r of
        (Some e, h) \<Rightarrow> (Some e, h)
      | (None, h) \<Rightarrow> Add h zp values)"

text \<open>
  A heap for the examples: objects of Z(7) with the value 1 everywhere but at the
  addresses 2 to 7.
\<close>

definition sample_heap :: zp_heap where
  "sample_heap =
     (\<lambda>_. \<lparr>P = 7, Z = 1\<rparr>)
       (2 := \<lparr>P = 5, Z = 1\<rparr>, 3 := \<lparr>P = 5, Z = 3\<rparr>, 4 := \<lparr>P = 5, Z = 4\<rparr>,
        5 := \<lparr>P = 65537, Z = 9\<rparr>, 6 := \<lparr>P = 7, Z = 6\<rparr>, 7 := \<lparr>P = 7, Z = 5\<rparr>)"

section \<open>Data of the reconciliation session\<close>

text \<open>A \<^verbatim>\<open>Bitstring\<close> is the path of a node in the prefix tree: a sequence of bits.\<close>

type_synonym bitstring = "bool list"

text \<open>
  Modelled from the spec: the type \<^verbatim>\<open>ZSet\<close> is not among the sources. The spec has it
  as a set of field elements, insertion order irrelevant and free of duplicates.
\<close>

type_synonym zset = "zp set"

text \<open>
  Modelled from the spec: \<^verbatim>\<open>NewZSet(elements...)\<close> is not among the sources; it is the
  ZSet of the given elements.
\<close>

definition NewZSet :: "zp list \<Rightarrow> zset" where
  "NewZSet elements = set elements"

text \<open>
  Modelled from the spec: \<^verbatim>\<open>ZSetDiff\<close> is not among the sources; the spec has
  \<open>ZSetDiff(A, B)\<close> = the elements in A not in B.
\<close>

definition ZSetDiff :: "zset \<Rightarrow> zset \<Rightarrow> zset" where
  "ZSetDiff a b = a - b"

text \<open>
  Modelled from the spec: \<^verbatim>\<open>AddAll\<close> is not among the sources; it is the bulk add of the
  spec, which merges the other set into the receiver.
\<close>

definition AddAll :: "zset \<Rightarrow> zset \<Rightarrow> zset" where
  "AddAll zs other = zs \<union> other"

text \<open>
  Modelled from the spec: \<^verbatim>\<open>Items\<close> is not among the sources; it lists the members, in
  no specified order. The members are kept as a set, and \<^verbatim>\<open>len(items) > 0\<close> reads
  \<open>Items zs \<noteq> {}\<close>.
\<close>

definition Items :: "zset \<Rightarrow> zp set" where
  "Items zs = zs"

text \<open>
  Modelled from the spec: the message types of the protocol are declared outside the
  sources. \<^verbatim>\<open>ReconMsg\<close> is the tagged union of the spec's data model.
\<close>

datatype reconMsg =
    Config "(string \<times> string) list"
  | ReconRqstFull bitstring zset
  | ReconRqstPoly bitstring int "zp list"
  | Elements zset
  | FullElements zset
  | SyncFail
  | Done

text \<open>
  Modelled from the spec: \<^verbatim>\<open>PrefixNode\<close> is an interface implemented outside the
  sources. A node is given by what its six methods return; the session only reads it.
\<close>

datatype prefixNode =
  PrefixNode (IsLeaf: bool) (Size: int) (Elements_node: "zp list") (SValues: "zp list")
    (Children: "prefixNode list") (Key: bitstring)

record requestEntry =
  node :: prefixNode
  key :: bitstring

datatype reconState = reconStateBottom | reconStateFlushEnded

text \<open>
  A \<^verbatim>\<open>bottomEntry\<close> embeds a pointer to a request entry, nil for the flush marker. The
  zero value of \<^verbatim>\<open>state\<close> is \<^verbatim>\<open>reconStateBottom\<close>.
\<close>

record bottomEntry =
  requestEntry :: "requestEntry option"
  state :: reconState

text \<open>
  The Go \<^verbatim>\<open>error\<close> values of the session: the tree's \<^verbatim>\<open>PNodeNotFound\<close>, the two errors
  \<^verbatim>\<open>handleReply\<close> creates (the second prints the message, which is nil when the channel
  was closed), and a failure of the transport.
\<close>

datatype error =
    PNodeNotFound
  | SyncfailAtLeaf
  | UnexpectedMessage "reconMsg option"
  | TransportError

text \<open>
  How an iteration of the session loop can end the session: by setting \<^verbatim>\<open>err\<close>, by the
  run-time panic of a nil dereference, or by waiting on the channel for ever.
\<close>

datatype stop = Error error | NilPanic | Blocked

text \<open>
  The event delivered on \<^verbatim>\<open>RecoverChan\<close>. The session never sets \<^verbatim>\<open>RemoteConfig\<close>.
\<close>

record recover =
  RemoteAddr :: string
  RemoteConfig :: "(string \<times> string) list"
  RemoteElements :: "zp set"

text \<open>
  The part of a \<^verbatim>\<open>Peer\<close> the session uses: the two settings, the result of the tree's
  \<^verbatim>\<open>Root()\<close>, and the events sent on \<^verbatim>\<open>RecoverChan\<close> so far. A send on the channel
  is taken to find its receiver.
\<close>

record peer =
  MBar :: int
  MaxOutstandingReconRequests :: int
  Root :: "error + prefixNode"
  RecoverChan :: "recover list"

subsection \<open>The connection\<close>

text \<open>
  \<^verbatim>\<open>readAllMsgs\<close> starts a goroutine that reads messages from the connection into an
  unbuffered channel and closes the channel at the first read error. What the session
  sees of it is, at each receive, whether a message is ready. The connection therefore
  carries the future of the channel: \<open>inbox\<close> has one entry per moment the session
  looks at the channel, \<open>Pending\<close> when no message is ready then and \<open>Arrived m\<close> for
  the next message. After the last entry either the read has failed and the channel is
  closed, or (\<open>hangs\<close>) the remote stays silent and nothing fails.

  \<^verbatim>\<open>WriteMsg\<close> is external too; \<open>werrs\<close> says which of the coming calls fail (none once
  the list is used up) and \<open>writes\<close> logs every call with its result.
\<close>

datatype arrival = Pending | Arrived reconMsg

record conn =
  remoteAddr :: string
  inbox :: "arrival list"
  hangs :: bool
  werrs :: "bool list"
  writes :: "(reconMsg \<times> error option) list"

definition WriteMsg :: "conn \<Rightarrow> reconMsg \<Rightarrow> error option \<times> conn" where
  "WriteMsg c msg =
     (case werrs c of
        [] \<Rightarrow> (None, c\<lparr>writes := writes c @ [(msg, None)]\<rparr>)
      | failed # rest \<Rightarrow>
          (let err = (if failed then Some TransportError else None)
           in (err, c\<lparr>werrs := rest, writes := writes c @ [(msg, err)]\<rparr>)))"

text \<open>The messages handed to \<^verbatim>\<open>WriteMsg\<close> so far, in order.\<close>

definition sent :: "conn \<Rightarrow> reconMsg list" where
  "sent c = map fst (writes c)"

text \<open>
  The non-blocking receive
  \<^verbatim>\<open>select { case msg = <-msgChan: hasMsg = true; default: }\<close>. It yields \<^verbatim>\<open>msg\<close> and
  \<^verbatim>\<open>hasMsg\<close>. A closed channel is always ready and delivers the zero value, a nil
  message.
\<close>

definition poll :: "conn \<Rightarrow> (reconMsg option \<times> bool) \<times> conn" where
  "poll c =
     (case inbox c of
        [] \<Rightarrow> (if hangs c then ((None, False), c) else ((None, True), c))
      | Pending # rest \<Rightarrow> ((None, False), c\<lparr>inbox := rest\<rparr>)
      | Arrived m # rest \<Rightarrow> ((Some m, True), c\<lparr>inbox := rest\<rparr>))"

text \<open>
  The blocking receive \<^verbatim>\<open>msg = <-msgChan\<close> waits for the next message: \<open>await\<close> skips
  the moments at which none is ready. With no message left it delivers nil if the
  channel is closed and never returns (\<open>None\<close>) if the remote hangs.
\<close>

fun await :: "arrival list \<Rightarrow> (reconMsg \<times> arrival list) option" where
  "await [] = None"
| "await (Pending # rest) = await rest"
| "await (Arrived m # rest) = Some (m, rest)"

definition recv :: "conn \<Rightarrow> (reconMsg option \<times> conn) option" where
  "recv c =
     (case await (inbox c) of
        Some (m, rest) \<Rightarrow> Some (Some m, c\<lparr>inbox := rest\<rparr>)
      | None \<Rightarrow> (if hangs c then None else Some (None, c\<lparr>inbox := []\<rparr>)))"

section \<open>The reconciliation session\<close>

record reconWithClient =
  requestQ :: "requestEntry list"
  bottomQ :: "bottomEntry list"
  rcvrSet :: zset
  flushing :: bool
  conn :: conn

definition pushBottom :: "reconWithClient \<Rightarrow> bottomEntry \<Rightarrow> reconWithClient" where
  "pushBottom rwc bottom = rwc\<lparr>bottomQ := bottomQ rwc @ [bottom]\<rparr>"

definition pushRequest :: "reconWithClient \<Rightarrow> requestEntry \<Rightarrow> reconWithClient" where
  "pushRequest rwc req = rwc\<lparr>requestQ := requestQ rwc @ [req]\<rparr>"

definition topBottom :: "reconWithClient \<Rightarrow> bottomEntry option" where
  "topBottom rwc = (case bottomQ rwc of [] \<Rightarrow> None | b # _ \<Rightarrow> Some b)"

definition popBottom :: "reconWithClient \<Rightarrow> bottomEntry option \<times> reconWithClient" where
  "popBottom rwc =
     (case bottomQ rwc of
        [] \<Rightarrow> (None, rwc)
      | b # rest \<Rightarrow> (Some b, rwc\<lparr>bottomQ := rest\<rparr>))"

definition popRequest :: "reconWithClient \<Rightarrow> requestEntry option \<times> reconWithClient" where
  "popRequest rwc =
     (case requestQ rwc of
        [] \<Rightarrow> (None, rwc)
      | r # rest \<Rightarrow> (Some r, rwc\<lparr>requestQ := rest\<rparr>))"

definition isDone :: "reconWithClient \<Rightarrow> bool" where
  "isDone rwc \<longleftrightarrow> length (requestQ rwc) = 0 \<and> length (bottomQ rwc) = 0"

text \<open>
  \<^verbatim>\<open>sendRequest\<close> dereferences \<^verbatim>\<open>req\<close> first, which panics for nil. The result of
  \<^verbatim>\<open>WriteMsg\<close> is dropped.
\<close>

definition sendRequest ::
  "peer \<Rightarrow> requestEntry option \<Rightarrow> reconWithClient \<Rightarrow> stop option \<times> reconWithClient" where
  "sendRequest p req rwc =
     (case req of
        None \<Rightarrow> (Some NilPanic, rwc)
      | Some r \<Rightarrow>
          (let msg =
                 (if IsLeaf (node r) \<or> Size (node r) < MBar p
                  then ReconRqstFull (key r) (NewZSet (Elements_node (node r)))
                  else ReconRqstPoly (key r) (Size (node r)) (SValues (node r)));
               (_, c) = WriteMsg (conn rwc) msg
           in (None, pushBottom (rwc\<lparr>conn := c\<rparr>)
                 \<lparr>requestEntry = Some r, state = reconStateBottom\<rparr>)))"

text \<open>
  \<^verbatim>\<open>handleReply\<close> switches on the type of the message; a nil message and every type
  without a case of its own reach \<^verbatim>\<open>default\<close>. The cases of \<^verbatim>\<open>SyncFail\<close> and
  \<^verbatim>\<open>FullElements\<close> dereference \<^verbatim>\<open>req\<close>.
\<close>

fun handleReply ::
  "peer \<Rightarrow> reconMsg option \<Rightarrow> requestEntry option \<Rightarrow> reconWithClient
     \<Rightarrow> stop option \<times> reconWithClient" where
  "handleReply p (Some SyncFail) req rwc =
     (case req of
        None \<Rightarrow> (Some NilPanic, rwc)
      | Some r \<Rightarrow>
          (if IsLeaf (node r) then (Some (Error SyncfailAtLeaf), rwc)
           else (None,
                 foldl (\<lambda>s childNode. pushRequest s \<lparr>node = childNode, key = Key childNode\<rparr>)
                   rwc (Children (node r)))))"
| "handleReply p (Some (Elements zs)) req rwc =
     (None, rwc\<lparr>rcvrSet := AddAll (rcvrSet rwc) zs\<rparr>)"
| "handleReply p (Some (FullElements zs)) req rwc =
     (case req of
        None \<Rightarrow> (Some NilPanic, rwc)
      | Some r \<Rightarrow>
          (let local = NewZSet (Elements_node (node r));
               localdiff = ZSetDiff local zs;
               remotediff = ZSetDiff zs local;
               (_, c) = WriteMsg (conn rwc) (Elements localdiff)
           in (None, rwc\<lparr>conn := c, rcvrSet := AddAll (rcvrSet rwc) remotediff\<rparr>)))"
| "handleReply p msg req rwc = (Some (Error (UnexpectedMessage msg)), rwc)"

definition flushQueue :: "reconWithClient \<Rightarrow> reconWithClient" where
  "flushQueue rwc =
     (pushBottom rwc \<lparr>requestEntry = None, state = reconStateFlushEnded\<rparr>)\<lparr>flushing := True\<rparr>"

text \<open>
  One pass through the body of the loop \<^verbatim>\<open>for !recon.isDone() { ... }\<close> of
  \<^verbatim>\<open>interactWithClient\<close>, up to the test of \<^verbatim>\<open>err\<close>. The result is \<open>None\<close> when the loop
  goes on.
\<close>

definition iterate :: "peer \<Rightarrow> reconWithClient \<Rightarrow> stop option \<times> reconWithClient" where
  "iterate p recon =
     (case topBottom recon of
        None \<Rightarrow>
          (let (req, recon1) = popRequest recon
           in sendRequest p req recon1)
      | Some bottom \<Rightarrow>
          (case state bottom of
             reconStateFlushEnded \<Rightarrow>
               (let (_, recon1) = popBottom recon
                in (None, recon1\<lparr>flushing := False\<rparr>))
           | reconStateBottom \<Rightarrow>
               (let ((msg, hasMsg), c1) = poll (conn recon);
                    recon1 = recon\<lparr>conn := c1\<rparr>
                in if hasMsg then
                     (let (_, recon2) = popBottom recon1
                      in handleReply p msg (requestEntry bottom) recon2)
                   else if int (length (bottomQ recon1)) > MaxOutstandingReconRequests p
                           \<or> length (requestQ recon1) = 0 then
                     (if \<not> flushing recon1 then (None, flushQueue recon1)
                      else
                        (let (_, recon2) = popBottom recon1
                         in case recv (conn recon2) of
                              None \<Rightarrow> (Some Blocked, recon2)
                            | Some (msg2, c2) \<Rightarrow>
                                handleReply p msg2 (requestEntry bottom) (recon2\<lparr>conn := c2\<rparr>)))
                   else
                     (let (req, recon2) = popRequest recon1
                      in sendRequest p req recon2))))"

text \<open>The state at the head of the loop after at most \<open>n\<close> passes, and how it got there.\<close>

fun iterations :: "nat \<Rightarrow> peer \<Rightarrow> reconWithClient \<Rightarrow> stop option \<times> reconWithClient" where
  "iterations 0 p recon = (None, recon)"
| "iterations (Suc n) p recon =
     (if isDone recon then (None, recon)
      else case iterate p recon of
             (None, recon') \<Rightarrow> iterations n p recon'
           | (Some e, recon') \<Rightarrow> (Some e, recon'))"

text \<open>The number of requests in the bottom queue that wait for their reply.\<close>

definition inflight :: "reconWithClient \<Rightarrow> nat" where
  "inflight rwc = length (filter (\<lambda>b. state b = reconStateBottom) (bottomQ rwc))"

subsection \<open>The session loop\<close>

text \<open>
  \<^verbatim>\<open>for !recon.isDone() { ...; if err != nil { return } }\<close>: the loop ends with both
  queues empty, or at the first pass that stops the session.
\<close>

function loop :: "peer \<Rightarrow> reconWithClient \<Rightarrow> stop option \<times> reconWithClient" where
  "loop p recon =
     (if isDone recon then (None, recon)
      else case iterate p recon of
             (None, recon') \<Rightarrow> loop p recon'
           | (Some e, recon') \<Rightarrow> (Some e, recon'))"
  by pat_completeness auto

text \<open>
  \<^verbatim>\<open>interactWithClient(conn, remoteConfig, bitstring)\<close> returns \<^verbatim>\<open>err\<close> (here also a
  panic or the wait without end), and leaves its trace on the peer's \<^verbatim>\<open>RecoverChan\<close>
  and on the connection. The results of \<^verbatim>\<open>WriteMsg\<close> are dropped.
\<close>

definition interactWithClient ::
  "peer \<Rightarrow> conn \<Rightarrow> (string \<times> string) list \<Rightarrow> bitstring \<Rightarrow> stop option \<times> peer \<times> conn" where
  "interactWithClient p c remoteConfig bits =
     (let recon = \<lparr>requestQ = [], bottomQ = [], rcvrSet = NewZSet [], flushing = False,
                    conn = c\<rparr>
      in case Root p of
           Inl err \<Rightarrow> (Some (Error err), p, c)
         | Inr root \<Rightarrow>
             (let recon1 = pushRequest recon \<lparr>node = root, key = bits\<rparr>
              in case loop p recon1 of
                   (Some e, recon2) \<Rightarrow> (Some e, p, conn recon2)
                 | (None, recon2) \<Rightarrow>
                     (let (_, c2) = WriteMsg (conn recon2) Done;
                          items = Items (rcvrSet recon2)
                      in if items \<noteq> {} then
                           (None,
                            p\<lparr>RecoverChan := RecoverChan p @
                                 [\<lparr>RemoteAddr = remoteAddr c2, RemoteConfig = [],
                                   RemoteElements = items\<rparr>]\<rparr>,
                            c2)
                         else (None, p, c2))))"

subsection \<open>A sample session\<close>

text \<open>
  A tree of two leaves under the root, a peer that allows one outstanding request and
  never sends a node in full for its size, and the state in which the loop is entered
  on a connection whose remote answers the first request with \<^verbatim>\<open>SyncFail\<close> and is slow
  afterwards.
\<close>

definition example_tree :: prefixNode where
  "example_tree =
     PrefixNode False 2 [] []
       [PrefixNode True 1 [\<lparr>P = 5, Z = 1\<rparr>] [] [] [False],
        PrefixNode True 1 [\<lparr>P = 5, Z = 2\<rparr>] [] [] [True]] []"

definition example_peer :: peer where
  "example_peer = \<lparr>MBar = 0, MaxOutstandingReconRequests = 1, Root = Inr example_tree,
                    RecoverChan = []\<rparr>"

definition example_start :: reconWithClient where
  "example_start =
     \<lparr>requestQ = [\<lparr>node = example_tree, key = []\<rparr>], bottomQ = [], rcvrSet = {},
      flushing = False,
      conn = \<lparr>remoteAddr = ''remote'', inbox = [Arrived SyncFail, Pending], hangs = False,
              werrs = [], writes = []\<rparr>\<rparr>"

subsection \<open>Notions used in the proofs\<close>

text \<open>
  The loop ends on every connection: each pass either uses up an entry of \<open>inbox\<close> or
  lowers the following rank of the queues.
\<close>

definition rank :: "peer \<Rightarrow> reconWithClient \<Rightarrow> nat" where
  "rank p s =
     (let plain = 2 + 2 * length (requestQ s) + length (bottomQ s)
      in case topBottom s of
           None \<Rightarrow> plain
         | Some b \<Rightarrow>
             (if state b = reconStateBottom
                 \<and> (int (length (bottomQ s)) > MaxOutstandingReconRequests p
                      \<or> length (requestQ s) = 0)
              then (if flushing s then 0 else 1)
              else plain))"

text \<open>The largest number of requests the loop lets wait for replies at once.\<close>

definition window :: "peer \<Rightarrow> nat" where
  "window p = nat (max 0 (MaxOutstandingReconRequests p)) + 1"

text \<open>
  From \<open>c\<close> to \<open>c'\<close> the connection is that of the same remote, and what was written
  in between has no \<^verbatim>\<open>Done\<close>.
\<close>

definition quiet :: "conn \<Rightarrow> conn \<Rightarrow> bool" where
  "quiet c c' \<longleftrightarrow>
     remoteAddr c' = remoteAddr c \<and> (\<exists>ms. sent c' = sent c @ ms \<and> Done \<notin> set ms)"

section \<open>Properties of the field arithmetic\<close>

lemma normalize_zp_P: "normalize_zp zp = Inr zp' \<Longrightarrow> P zp' = P zp"
  by (auto simp: normalize_zp_def big_Mod_def split: if_splits)

lemma Add_step:
  "Add h zp (v # values) =
     (if P (h zp) \<noteq> P (h v) then (Some (FieldMismatch (P (h zp)) (P (h v))), h)
      else if P (h zp) = 0
        then (Some DivisionByZero, h(zp := (h zp)\<lparr>Z := Z (h zp) + Z (h v)\<rparr>))
        else Add (h(zp := (h zp)\<lparr>Z := (Z (h zp) + Z (h v)) mod \<bar>P (h zp)\<bar>\<rparr>)) zp values)"
  by (simp add: assertZp_def normalize_zp_def big_Mod_def Let_def)

lemma Add_keeps_P: "P (snd (Add h zp values) x) = P (h x)"
proof (induction "values" arbitrary: h)
  case Nil
  then show ?case by simp
next
  case (Cons w ws)
  show ?case
    unfolding Add_step using Cons.IH by simp
qed

lemma Add_mismatch:
  "v \<in> set values \<Longrightarrow> P (h v) \<noteq> P (h zp) \<Longrightarrow>
     \<exists>e. fst (Add h zp values) = Some e
       \<and> (P (h zp) \<noteq> 0 \<longrightarrow>
            (\<exists>w \<in> set values. P (h w) \<noteq> P (h zp) \<and> e = FieldMismatch (P (h zp)) (P (h w))))"
proof (induction "values" arbitrary: h)
  case Nil
  then show ?case by simp
next
  case (Cons w ws)
  show ?case
  proof (cases "P (h zp) = P (h w)")
    case False
    then show ?thesis unfolding Add_step by auto
  next
    case same: True
    with Cons.prems have vin: "v \<in> set ws" by auto
    show ?thesis
    proof (cases "P (h zp) = 0")
      case True
      with same show ?thesis unfolding Add_step by simp
    next
      case False
      let ?h = "h(zp := (h zp)\<lparr>Z := (Z (h zp) + Z (h w)) mod \<bar>P (h zp)\<bar>\<rparr>)"
      have keep: "P (?h x) = P (h x)" for x by simp
      from Cons.prems have "P (?h v) \<noteq> P (?h zp)" unfolding keep by simp
      from Cons.IH [OF vin this] obtain e where e: "fst (Add ?h zp ws) = Some e"
        and m: "P (h zp) \<noteq> 0 \<longrightarrow>
            (\<exists>x \<in> set ws. P (h x) \<noteq> P (h zp) \<and> e = FieldMismatch (P (h zp)) (P (h x)))"
        unfolding keep by blast
      from same False have "Add h zp (w # ws) = Add ?h zp ws"
        by (simp add: Add_step del: Add.simps)
      with e m show ?thesis by auto
    qed
  qed
qed

lemma Add_pair:
  "P (h a) = P (h b) \<Longrightarrow> Add h a [b] =
     (if P (h a) = 0 then (Some DivisionByZero, h(a := (h a)\<lparr>Z := Z (h a) + Z (h b)\<rparr>))
      else (None, h(a := (h a)\<lparr>Z := (Z (h a) + Z (h b)) mod \<bar>P (h a)\<bar>\<rparr>)))"
  by (simp add: Add_step del: Add.simps(2))

lemma zp_update_Z: "(x :: zp)\<lparr>Z := m\<rparr> = \<lparr>P = P x, Z = m\<rparr>"
  by (cases x) simp

lemma update_Z_keeps_P: "P ((h(a := (h a)\<lparr>Z := m\<rparr>)) x) = P (h x)"
  by simp

lemma Add_pair_outcome:
  "P (h a) = P (h b) \<Longrightarrow>
     fst (Add h a [b]) = (if P (h a) = 0 then Some DivisionByZero else None)"
  by (simp add: Add_pair del: Add.simps)

lemma then_Add_pair:
  assumes "P (h a) = P (h b)" and "P (h b) = P (h c)" and "P (h a) \<noteq> 0"
    and "a \<noteq> b" and "a \<noteq> c"
  shows "then_Add (Add h a [b]) a [c] =
           (None, h(a := \<lparr>P = P (h a), Z = (Z (h a) + Z (h b) + Z (h c)) mod \<bar>P (h a)\<bar>\<rparr>))"
    and "fst (then_Add (Add h b [c]) a [b]) = None"
    and "snd (then_Add (Add h b [c]) a [b]) a =
           \<lparr>P = P (h a), Z = (Z (h a) + Z (h b) + Z (h c)) mod \<bar>P (h a)\<bar>\<rparr>"
proof -
  let ?m = "\<bar>P (h a)\<bar>"
  let ?h1 = "h(a := (h a)\<lparr>Z := (Z (h a) + Z (h b)) mod ?m\<rparr>)"
  have 1: "Add h a [b] = (None, ?h1)"
    using assms by (simp add: Add_pair del: Add.simps)
  have "Add ?h1 a [c] = (None, ?h1(a := (?h1 a)\<lparr>Z := (Z (?h1 a) + Z (?h1 c)) mod ?m\<rparr>))"
    using assms by (subst Add_pair) simp_all
  with 1 assms show "then_Add (Add h a [b]) a [c] =
           (None, h(a := \<lparr>P = P (h a), Z = (Z (h a) + Z (h b) + Z (h c)) mod ?m\<rparr>))"
    by (simp add: then_Add_def mod_simps zp_update_Z del: Add.simps)
  let ?h2 = "h(b := (h b)\<lparr>Z := (Z (h b) + Z (h c)) mod ?m\<rparr>)"
  have 2: "Add h b [c] = (None, ?h2)"
    using assms by (simp add: Add_pair del: Add.simps)
  have 3: "Add ?h2 a [b] = (None, ?h2(a := (?h2 a)\<lparr>Z := (Z (?h2 a) + Z (?h2 b)) mod ?m\<rparr>))"
    using assms by (subst Add_pair) simp_all
  from 2 3 show "fst (then_Add (Add h b [c]) a [b]) = None"
    by (simp add: then_Add_def del: Add.simps)
  from 2 3 assms show "snd (then_Add (Add h b [c]) a [b]) a =
           \<lparr>P = P (h a), Z = (Z (h a) + Z (h b) + Z (h c)) mod ?m\<rparr>"
    by (simp add: then_Add_def mod_simps zp_update_Z add.assoc del: Add.simps)
qed

text \<open>
  Claim C7. For every pair \<open>(p, n)\<close> of 64-bit arguments with \<open>p > 0\<close>, \<^verbatim>\<open>NewZp(p, n)\<close>
  returns a field element with modulus \<open>p\<close> whose value \<open>z\<close> satisfies \<open>0 \<le> z < p\<close>; it
  is the residue of \<open>n\<close> modulo \<open>p\<close>, so that a negative \<open>n\<close> wraps around. In
  particular \<^verbatim>\<open>NewZp(65537, -1)\<close> has the value 65536.
\<close>

theorem NewZp_in_range:
  "(0 < sint p \<longrightarrow>
      (\<exists>zp. NewZp p n = Inr zp \<and> P zp = sint p \<and> 0 \<le> Z zp \<and> Z zp < P zp
            \<and> Z zp = sint n mod sint p))
   \<and> NewZp 65537 (- 1) = Inr \<lparr>P = 65537, Z = 65536\<rparr>"
  by (simp add: NewZp_def normalize_zp_def big_Mod_def)

theorem NewZp_in_range_witness:
  "0 < sint (7 :: 64 word) \<and> NewZp 7 (- 3) = Inr \<lparr>P = 7, Z = 4\<rparr>"
  using NewZp_in_range [of 7 "- 3"] by (auto simp: zp.equality)

text \<open>
  Claim C8. When some operand of \<^verbatim>\<open>Add\<close> has a modulus other than the receiver's, the
  call panics and returns no value. For a receiver with a non-zero modulus the panic is
  that of \<^verbatim>\<open>assertZp\<close>, reporting the receiver's modulus and that of an operand which
  differs from it; for a single operand it reports exactly the two moduli and leaves
  the heap as it was. The receiver's modulus is the same after the call.
\<close>

theorem Add_mismatch_panics:
  assumes "v \<in> set values" and "P (h v) \<noteq> P (h zp)"
  shows "(\<exists>e. fst (Add h zp values) = Some e)
         \<and> (P (h zp) \<noteq> 0 \<longrightarrow>
              (\<exists>w \<in> set values. P (h w) \<noteq> P (h zp)
                 \<and> fst (Add h zp values) = Some (FieldMismatch (P (h zp)) (P (h w)))))
         \<and> Add h zp [v] = (Some (FieldMismatch (P (h zp)) (P (h v))), h)
         \<and> P (snd (Add h zp values) zp) = P (h zp)"
  using Add_mismatch [OF assms] assms(2)
  by (auto simp: Add_step Add_keeps_P simp del: Add.simps(2))

theorem Add_mismatch_panics_witness:
  "Add sample_heap 2 [5] = (Some (FieldMismatch 5 65537), sample_heap)
   \<and> fst (Add sample_heap 2 [3, 0]) = Some (FieldMismatch 5 7)
   \<and> snd (Add sample_heap 2 [3, 0]) 2 = \<lparr>P = 5, Z = 4\<rparr>"
  using Add_mismatch_panics [of 5 "[5]" sample_heap 2]
    Add_mismatch_panics [of 0 "[3, 0]" sample_heap 2]
  by (simp add: sample_heap_def assertZp_def normalize_zp_def big_Mod_def)

text \<open>
  Claim C9, as amended. Let \<open>a\<close>, \<open>b\<close>, \<open>c\<close> point to field elements of one modulus
  \<open>p\<close>. Then \<^verbatim>\<open>a.Add(b)\<close> and \<^verbatim>\<open>b.Add(a)\<close> end alike and leave the same value in their
  receivers, for \<open>p \<noteq> 0\<close> the residue of the sum of the two values modulo \<open>p\<close>;
  \<^verbatim>\<open>a.Add(b).Add(c)\<close> is \<^verbatim>\<open>a.Add(b, c)\<close>; \<^verbatim>\<open>a.Add(b).Add(c)\<close> and \<^verbatim>\<open>a.Add(b.Add(c))\<close> end
  alike, and when the receiver \<open>a\<close> is neither \<open>b\<close> nor \<open>c\<close> and \<open>p \<noteq> 0\<close> they leave the
  same value in \<open>a\<close>, the residue of the sum of the three values. In Z(5), \<open>1 + 3 = 4\<close>
  and \<open>1 + 9 = 0\<close>, where \<^verbatim>\<open>NewZp(5, 9)\<close> is \<open>4\<close>.
\<close>

theorem Add_commutative_associative:
  assumes "P (h a) = P (h b)" and "P (h b) = P (h c)"
  shows "fst (Add h a [b]) = fst (Add h b [a])
         \<and> snd (Add h a [b]) a = snd (Add h b [a]) b
         \<and> (P (h a) \<noteq> 0 \<longrightarrow>
              Add h a [b] =
                (None, h(a := \<lparr>P = P (h a), Z = (Z (h a) + Z (h b)) mod \<bar>P (h a)\<bar>\<rparr>)))
         \<and> then_Add (Add h a [b]) a [c] = Add h a [b, c]
         \<and> fst (then_Add (Add h a [b]) a [c]) = fst (then_Add (Add h b [c]) a [b])
         \<and> (a \<noteq> b \<and> a \<noteq> c \<and> P (h a) \<noteq> 0 \<longrightarrow>
              snd (then_Add (Add h a [b]) a [c]) a = snd (then_Add (Add h b [c]) a [b]) a
              \<and> snd (then_Add (Add h a [b]) a [c]) a =
                  \<lparr>P = P (h a), Z = (Z (h a) + Z (h b) + Z (h c)) mod \<bar>P (h a)\<bar>\<rparr>)
         \<and> Add (h(0 := \<lparr>P = 5, Z = 1\<rparr>, 1 := \<lparr>P = 5, Z = 3\<rparr>)) 0 [1] =
             (None, h(0 := \<lparr>P = 5, Z = 4\<rparr>, 1 := \<lparr>P = 5, Z = 3\<rparr>))
         \<and> NewZp 5 9 = Inr \<lparr>P = 5, Z = 4\<rparr>
         \<and> Add (h(0 := \<lparr>P = 5, Z = 1\<rparr>, 1 := \<lparr>P = 5, Z = 4\<rparr>)) 0 [1] =
             (None, h(0 := \<lparr>P = 5, Z = 0\<rparr>, 1 := \<lparr>P = 5, Z = 4\<rparr>))"
proof -
  have comm: "fst (Add h a [b]) = fst (Add h b [a])"
    "snd (Add h a [b]) a = snd (Add h b [a]) b"
    using assms by (simp_all add: Add_pair add.commute zp.equality del: Add.simps)
  have val: "P (h a) \<noteq> 0 \<longrightarrow>
              Add h a [b] =
                (None, h(a := \<lparr>P = P (h a), Z = (Z (h a) + Z (h b)) mod \<bar>P (h a)\<bar>\<rparr>))"
    using assms by (simp add: Add_pair zp_update_Z del: Add.simps)
  have chain: "then_Add (Add h a [b]) a [c] = Add h a [b, c]"
    by (simp add: then_Add_def Let_def split: option.splits sum.splits)
  have outcome: "fst (then_Add (Add h a [b]) a [c]) = fst (then_Add (Add h b [c]) a [b])"
  proof (cases "P (h a) = 0")
    case True
    with assms show ?thesis
      by (simp add: Add_pair then_Add_def del: Add.simps)
  next
    case False
    let ?m = "\<bar>P (h a)\<bar>"
    let ?h1 = "h(a := (h a)\<lparr>Z := (Z (h a) + Z (h b)) mod ?m\<rparr>)"
    let ?h2 = "h(b := (h b)\<lparr>Z := (Z (h b) + Z (h c)) mod ?m\<rparr>)"
    have e1: "P (?h1 a) = P (?h1 c)"
      by (simp only: update_Z_keeps_P assms)
    have e2: "P (?h2 a) = P (?h2 b)"
      by (simp only: update_Z_keeps_P assms)
    have n1: "P (?h1 a) \<noteq> 0" and n2: "P (?h2 a) \<noteq> 0"
      unfolding update_Z_keeps_P by (rule False)+
    have "fst (Add ?h1 a [c]) = None"
      by (simp only: Add_pair_outcome [OF e1] n1 if_False)
    moreover have "fst (Add ?h2 a [b]) = None"
      by (simp only: Add_pair_outcome [OF e2] n2 if_False)
    moreover have "Add h a [b] = (None, ?h1)" "Add h b [c] = (None, ?h2)"
      using assms False by (simp_all add: Add_pair del: Add.simps)
    ultimately show ?thesis
      by (simp add: then_Add_def del: Add.simps)
  qed
  have grouping: "a \<noteq> b \<and> a \<noteq> c \<and> P (h a) \<noteq> 0 \<longrightarrow>
              snd (then_Add (Add h a [b]) a [c]) a = snd (then_Add (Add h b [c]) a [b]) a
              \<and> snd (then_Add (Add h a [b]) a [c]) a =
                  \<lparr>P = P (h a), Z = (Z (h a) + Z (h b) + Z (h c)) mod \<bar>P (h a)\<bar>\<rparr>"
    using then_Add_pair [OF assms] by simp
  have ex1: "Add (h(0 := \<lparr>P = 5, Z = 1\<rparr>, 1 := \<lparr>P = 5, Z = 3\<rparr>)) 0 [1] =
             (None, h(0 := \<lparr>P = 5, Z = 4\<rparr>, 1 := \<lparr>P = 5, Z = 3\<rparr>))"
    by (simp add: assertZp_def normalize_zp_def big_Mod_def fun_upd_twist)
  have ex2: "NewZp 5 9 = Inr \<lparr>P = 5, Z = 4\<rparr>"
    by (simp add: NewZp_def normalize_zp_def big_Mod_def)
  have ex3: "Add (h(0 := \<lparr>P = 5, Z = 1\<rparr>, 1 := \<lparr>P = 5, Z = 4\<rparr>)) 0 [1] =
             (None, h(0 := \<lparr>P = 5, Z = 0\<rparr>, 1 := \<lparr>P = 5, Z = 4\<rparr>))"
    by (simp add: assertZp_def normalize_zp_def big_Mod_def fun_upd_twist)
  from comm val chain outcome grouping ex1 ex2 ex3 show ?thesis by blast
qed

theorem Add_commutative_associative_witness:
  "snd (Add sample_heap 0 [6]) 0 = \<lparr>P = 7, Z = 0\<rparr>
   \<and> snd (Add sample_heap 6 [0]) 6 = \<lparr>P = 7, Z = 0\<rparr>
   \<and> snd (then_Add (Add sample_heap 0 [6]) 0 [7]) 0 = \<lparr>P = 7, Z = 5\<rparr>
   \<and> snd (then_Add (Add sample_heap 6 [7]) 0 [6]) 0 = \<lparr>P = 7, Z = 5\<rparr>
   \<and> snd (Add sample_heap 0 [6, 7]) 0 = \<lparr>P = 7, Z = 5\<rparr>"
  using Add_commutative_associative [of sample_heap 0 6 7]
  by (simp add: sample_heap_def assertZp_def normalize_zp_def big_Mod_def then_Add_def)

text \<open>
  Without the condition on the receiver the grouping matters, since \<^verbatim>\<open>Add\<close> changes its
  receiver in place. With \<open>a\<close> and \<open>b\<close> two objects of Z(7) of value 1,
  \<^verbatim>\<open>a.Add(b).Add(a)\<close> leaves 4 in \<open>a\<close> and \<^verbatim>\<open>a.Add(b.Add(a))\<close> leaves 3; and
  \<^verbatim>\<open>a.Add(a, a)\<close> leaves 4.
\<close>

theorem Add_grouping_aliased:
  "P (sample_heap 0) = P (sample_heap 1)
   \<and> sample_heap 0 = \<lparr>P = 7, Z = 1\<rparr> \<and> sample_heap 1 = \<lparr>P = 7, Z = 1\<rparr>
   \<and> snd (then_Add (Add sample_heap 0 [1]) 0 [0]) 0 = \<lparr>P = 7, Z = 4\<rparr>
   \<and> snd (then_Add (Add sample_heap 1 [0]) 0 [1]) 0 = \<lparr>P = 7, Z = 3\<rparr>
   \<and> snd (Add sample_heap 0 [0, 0]) 0 = \<lparr>P = 7, Z = 4\<rparr>
   \<and> \<not> snd (then_Add (Add sample_heap 0 [1]) 0 [0]) 0
        = snd (then_Add (Add sample_heap 1 [0]) 0 [1]) 0"
  by (simp add: sample_heap_def assertZp_def normalize_zp_def big_Mod_def then_Add_def)

section \<open>Termination of the session loop\<close>

lemma WriteMsg_inbox [simp]: "inbox (snd (WriteMsg c m)) = inbox c"
  by (simp add: WriteMsg_def Let_def split: list.splits)

lemma rank_le: "rank p s \<le> 2 + 2 * length (requestQ s) + length (bottomQ s)"
  by (simp add: rank_def Let_def split: option.splits)

lemma sendRequest_Some:
  "sendRequest p (Some r) s = (e, s') \<Longrightarrow>
     e = None \<and> inbox (conn s') = inbox (conn s) \<and> requestQ s' = requestQ s
     \<and> bottomQ s' = bottomQ s @ [\<lparr>requestEntry = Some r, state = reconStateBottom\<rparr>]
     \<and> flushing s' = flushing s"
  by (auto simp: sendRequest_def pushBottom_def Let_def split: prod.splits)
    (metis WriteMsg_inbox snd_conv)

lemma foldl_pushRequest_requestQ:
  "requestQ (foldl (\<lambda>s c. pushRequest s (f c)) rwc cs) = requestQ rwc @ map f cs"
  by (induction cs arbitrary: rwc) (simp_all add: pushRequest_def)

lemma foldl_pushRequest_more:
  "bottomQ (foldl (\<lambda>s c. pushRequest s (f c)) rwc cs) = bottomQ rwc"
  "conn (foldl (\<lambda>s c. pushRequest s (f c)) rwc cs) = conn rwc"
  "flushing (foldl (\<lambda>s c. pushRequest s (f c)) rwc cs) = flushing rwc"
  "rcvrSet (foldl (\<lambda>s c. pushRequest s (f c)) rwc cs) = rcvrSet rwc"
  by (induction cs arbitrary: rwc) (simp_all add: pushRequest_def)

lemma handleReply_inbox:
  "handleReply p m r s = (e, s') \<Longrightarrow> inbox (conn s') = inbox (conn s)"
  apply (cases "(p, m, r, s)" rule: handleReply.cases)
  apply (auto simp: foldl_pushRequest_more Let_def split: option.splits if_splits prod.splits)
  apply (metis WriteMsg_inbox snd_conv)
  done

lemma await_length: "await xs = Some (m, rest) \<Longrightarrow> length rest < length xs"
  by (induction xs rule: await.induct) auto


lemma recv_length:
  "recv c = Some (m, c') \<Longrightarrow> length (inbox c') \<le> length (inbox c)"
  by (auto simp: recv_def split: option.splits if_splits dest: await_length)

lemma iterate_empty:
  assumes "bottomQ s = []" "requestQ s = r # rs"
  shows "iterate p s = sendRequest p (Some r) (s\<lparr>requestQ := rs\<rparr>)"
  using assms by (simp add: iterate_def topBottom_def popRequest_def)

lemma iterate_flushEnded:
  assumes "bottomQ s = b # bs" "state b = reconStateFlushEnded"
  shows "iterate p s = (None, s\<lparr>bottomQ := bs, flushing := False\<rparr>)"
  using assms by (simp add: iterate_def topBottom_def popBottom_def)

lemma iterate_hasMsg:
  assumes "bottomQ s = b # bs" "state b = reconStateBottom"
    and "poll (conn s) = ((m, True), c1)"
  shows "iterate p s = handleReply p m (requestEntry b) (s\<lparr>conn := c1, bottomQ := bs\<rparr>)"
  using assms by (simp add: iterate_def topBottom_def popBottom_def)

lemma iterate_flush:
  assumes "bottomQ s = b # bs" "state b = reconStateBottom"
    and "poll (conn s) = ((m, False), c1)"
    and "int (length (bottomQ s)) > MaxOutstandingReconRequests p \<or> requestQ s = []"
    and "\<not> flushing s"
  shows "iterate p s = (None, flushQueue (s\<lparr>conn := c1\<rparr>))"
  using assms by (auto simp add: iterate_def topBottom_def popBottom_def)

lemma iterate_wait:
  assumes "bottomQ s = b # bs" "state b = reconStateBottom"
    and "poll (conn s) = ((m, False), c1)"
    and "int (length (bottomQ s)) > MaxOutstandingReconRequests p \<or> requestQ s = []"
    and "flushing s"
  shows "iterate p s =
           (case recv c1 of
              None \<Rightarrow> (Some Blocked, s\<lparr>conn := c1, bottomQ := bs\<rparr>)
            | Some (msg2, c2) \<Rightarrow>
                handleReply p msg2 (requestEntry b) (s\<lparr>bottomQ := bs, conn := c2\<rparr>))"
  using assms by (auto simp add: iterate_def topBottom_def popBottom_def split: option.splits)

lemma iterate_pipeline:
  assumes "bottomQ s = b # bs" "state b = reconStateBottom"
    and "poll (conn s) = ((m, False), c1)"
    and "\<not> int (length (bottomQ s)) > MaxOutstandingReconRequests p" "requestQ s = r # rs"
  shows "iterate p s = sendRequest p (Some r) (s\<lparr>conn := c1, requestQ := rs\<rparr>)"
  using assms by (auto simp add: iterate_def topBottom_def popRequest_def)


lemma poll_cases:
  assumes "poll c = ((m, h), c1)"
  shows "(inbox c = [] \<and> c1 = c \<and> m = None \<and> h = (\<not> hangs c))
         \<or> length (inbox c1) < length (inbox c)"
  using assms by (auto simp: poll_def split: list.splits arrival.splits if_splits)

lemma handleReply_None: "handleReply p None r s = (Some (Error (UnexpectedMessage None)), s)"
  by simp

lemma recv_stuck: "inbox c = [] \<Longrightarrow> hangs c \<Longrightarrow> recv c = None"
  by (simp add: recv_def)

lemma iterate_decreases:
  assumes nd: "\<not> isDone s" and it: "iterate p s = (None, s')"
  shows "length (inbox (conn s')) < length (inbox (conn s))
         \<or> (length (inbox (conn s')) = length (inbox (conn s)) \<and> rank p s' < rank p s)"
proof (cases "bottomQ s")
  case Nil
  with nd obtain r rs where rq: "requestQ s = r # rs"
    by (cases "requestQ s") (auto simp: isDone_def)
  from it have "sendRequest p (Some r) (s\<lparr>requestQ := rs\<rparr>) = (None, s')"
    by (simp add: iterate_empty [OF Nil rq])
  from sendRequest_Some [OF this] Nil rq rank_le [of p s']
  show ?thesis by (simp add: rank_def topBottom_def)
next
  case (Cons b bs)
  show ?thesis
  proof (cases "state b")
    case reconStateFlushEnded
    from it have "s' = s\<lparr>bottomQ := bs, flushing := False\<rparr>"
      by (simp add: iterate_flushEnded [OF Cons reconStateFlushEnded])
    with Cons reconStateFlushEnded rank_le [of p s']
    show ?thesis by (simp add: rank_def topBottom_def)
  next
    case reconStateBottom
    obtain m h c1 where po: "poll (conn s) = ((m, h), c1)"
      by (metis prod.exhaust)
    note pc = poll_cases [OF po]
    show ?thesis
    proof (cases h)
      case True
      with it po have hr: "handleReply p m (requestEntry b) (s\<lparr>conn := c1, bottomQ := bs\<rparr>) = (None, s')"
        by (simp add: iterate_hasMsg [OF Cons reconStateBottom])
      from handleReply_inbox [OF hr] have "inbox (conn s') = inbox c1" by simp
      moreover from hr have "m \<noteq> None" by (cases m) simp_all
      ultimately show ?thesis using pc by auto
    next
      case False
      from po False have po': "poll (conn s) = ((m, False), c1)" by simp
      show ?thesis
      proof (cases "int (length (bottomQ s)) > MaxOutstandingReconRequests p \<or> requestQ s = []")
        case cond: True
        show ?thesis
        proof (cases "flushing s")
          case fl: False
          from it have s': "s' = flushQueue (s\<lparr>conn := c1\<rparr>)"
            by (simp add: iterate_flush [OF Cons reconStateBottom po' cond fl])
          with Cons reconStateBottom cond fl pc
          show ?thesis
            by (auto simp: flushQueue_def pushBottom_def rank_def topBottom_def)
        next
          case fl: True
          note w = iterate_wait [OF Cons reconStateBottom po' cond fl]
          from it w obtain m2 c2 where rc: "recv c1 = Some (m2, c2)"
            and hr: "handleReply p m2 (requestEntry b) (s\<lparr>bottomQ := bs, conn := c2\<rparr>) = (None, s')"
            by (auto split: option.splits)
          from handleReply_inbox [OF hr] have "inbox (conn s') = inbox c2" by simp
          moreover note recv_length [OF rc]
          moreover from rc have "\<not> (inbox c1 = [] \<and> hangs c1)"
            by (auto simp: recv_stuck)
          ultimately show ?thesis using pc False by auto
        qed
      next
        case ncond: False
        then obtain r rs where rq: "requestQ s = r # rs"
          by (cases "requestQ s") auto
        from ncond have nc: "\<not> int (length (bottomQ s)) > MaxOutstandingReconRequests p" by simp
        from it have "sendRequest p (Some r) (s\<lparr>conn := c1, requestQ := rs\<rparr>) = (None, s')"
          by (simp add: iterate_pipeline [OF Cons reconStateBottom po' nc rq])
        from sendRequest_Some [OF this] Cons rq ncond reconStateBottom pc rank_le [of p s']
        show ?thesis by (auto simp add: rank_def topBottom_def)
      qed
    qed
  qed
qed

termination loop
  apply (relation "measures [\<lambda>(p, s). length (inbox (conn s)), \<lambda>(p, s). rank p s]")
   apply simp
  subgoal for p recon x recon'
    using iterate_decreases [of recon p recon'] by auto
  done

section \<open>Properties of the session\<close>

lemma WriteMsg_sent: "sent (snd (WriteMsg c m)) = sent c @ [m]"
  by (simp add: WriteMsg_def sent_def Let_def split: list.splits)

lemma WriteMsg_writes: "writes (snd (WriteMsg c m)) = writes c @ [(m, fst (WriteMsg c m))]"
  by (simp add: WriteMsg_def Let_def split: list.splits)

lemma WriteMsg_same [simp]:
  "remoteAddr (snd (WriteMsg c m)) = remoteAddr c"
  "hangs (snd (WriteMsg c m)) = hangs c"
  by (simp_all add: WriteMsg_def Let_def split: list.splits)

lemma foldl_pushRequest:
  "foldl (\<lambda>s c. pushRequest s (f c)) rwc cs = rwc\<lparr>requestQ := requestQ rwc @ map f cs\<rparr>"
  by (induction cs arbitrary: rwc) (simp_all add: pushRequest_def)

lemma sendRequest_eq:
  "sendRequest p (Some r) rwc =
     (None, rwc\<lparr>bottomQ := bottomQ rwc @ [\<lparr>requestEntry = Some r, state = reconStateBottom\<rparr>],
               conn := snd (WriteMsg (conn rwc)
                 (if IsLeaf (node r) \<or> Size (node r) < MBar p
                  then ReconRqstFull (key r) (NewZSet (Elements_node (node r)))
                  else ReconRqstPoly (key r) (Size (node r)) (SValues (node r))))\<rparr>)"
  by (simp add: sendRequest_def pushBottom_def Let_def split: prod.splits)

lemma handleReply_FullElements_eq:
  "handleReply p (Some (FullElements zs)) (Some r) rwc =
     (None, rwc\<lparr>rcvrSet := rcvrSet rwc \<union> (zs - set (Elements_node (node r))),
               conn := snd (WriteMsg (conn rwc) (Elements (set (Elements_node (node r)) - zs)))\<rparr>)"
  by (simp add: Let_def NewZSet_def ZSetDiff_def AddAll_def split: prod.splits)

lemma handleReply_SyncFail_eq:
  "handleReply p (Some SyncFail) (Some r) rwc =
     (if IsLeaf (node r) then (Some (Error SyncfailAtLeaf), rwc)
      else (None, rwc\<lparr>requestQ := requestQ rwc @
                         map (\<lambda>child. \<lparr>node = child, key = Key child\<rparr>) (Children (node r))\<rparr>))"
  by (simp add: foldl_pushRequest)

lemma loop_done: "isDone s \<Longrightarrow> loop p s = (None, s)"
  by simp

lemma loop_next: "\<not> isDone s \<Longrightarrow> iterate p s = (None, s') \<Longrightarrow> loop p s = loop p s'"
  by simp

lemma loop_stop: "\<not> isDone s \<Longrightarrow> iterate p s = (Some e, s') \<Longrightarrow> loop p s = (Some e, s')"
  by simp

declare loop.simps [simp del]

lemma poll_Arrived: "inbox c = Arrived m # rest \<Longrightarrow> poll c = ((Some m, True), c\<lparr>inbox := rest\<rparr>)"
  by (simp add: poll_def)

lemma poll_Pending: "inbox c = Pending # rest \<Longrightarrow> poll c = ((None, False), c\<lparr>inbox := rest\<rparr>)"
  by (simp add: poll_def)

lemma await_replicate: "await (replicate k Pending @ Arrived m # rest) = Some (m, rest)"
  by (induction k) simp_all

lemma recv_replicate:
  "inbox c = replicate k Pending @ Arrived m # rest \<Longrightarrow> recv c = Some (Some m, c\<lparr>inbox := rest\<rparr>)"
  by (simp add: recv_def await_replicate)

lemma handleReply_FullElements_lit:
  "handleReply p (Some (FullElements zs)) (Some r)
       \<lparr>requestQ = rq, bottomQ = bq, rcvrSet = R, flushing = f, conn = c\<rparr> =
     (None, \<lparr>requestQ = rq, bottomQ = bq, rcvrSet = R \<union> (zs - set (Elements_node (node r))),
             flushing = f,
             conn = snd (WriteMsg c (Elements (set (Elements_node (node r)) - zs)))\<rparr>)"
  by (simp add: Let_def NewZSet_def ZSetDiff_def AddAll_def split: prod.splits)

text \<open>One request in flight, nothing left to send, and its reply FullElements on the way.\<close>

lemma loop_single_FullElements:
  assumes st: "state b = reconStateBottom" and re: "requestEntry b = Some r"
    and ib: "inbox c = replicate k Pending @ Arrived (FullElements zs) # rest"
  shows "loop p \<lparr>requestQ = [], bottomQ = [b], rcvrSet = R, flushing = False, conn = c\<rparr> =
           (None, \<lparr>requestQ = [], bottomQ = [], rcvrSet = R \<union> (zs - set (Elements_node (node r))),
                   flushing = False,
                   conn = snd (WriteMsg (c\<lparr>inbox := rest\<rparr>)
                                  (Elements (set (Elements_node (node r)) - zs)))\<rparr>)"
    (is "loop p ?s = (None, ?t)")
proof -
  let ?m = "Some (FullElements zs)"
  have nd: "\<not> isDone ?s" by (simp add: isDone_def)
  have dn: "isDone ?t" by (simp add: isDone_def)
  show ?thesis
  proof (cases k)
    case 0
    with ib have po: "poll (conn ?s) = ((?m, True), c\<lparr>inbox := rest\<rparr>)"
      by (simp add: poll_Arrived)
    have "iterate p ?s = (None, ?t)"
      using iterate_hasMsg [OF _ st po, of "[]" p]
      by (simp add: re handleReply_FullElements_lit del: handleReply.simps)
    then show ?thesis
      by (simp add: loop_next [OF nd] loop_done [OF dn])
  next
    case (Suc j)
    let ?c1 = "c\<lparr>inbox := replicate j Pending @ Arrived (FullElements zs) # rest\<rparr>"
    let ?s1 = "\<lparr>requestQ = [], bottomQ = [b, \<lparr>requestEntry = None, state = reconStateFlushEnded\<rparr>],
                 rcvrSet = R, flushing = True, conn = ?c1\<rparr>"
    let ?t1 = "\<lparr>requestQ = [], bottomQ = [\<lparr>requestEntry = None, state = reconStateFlushEnded\<rparr>],
                 rcvrSet = R \<union> (zs - set (Elements_node (node r))), flushing = True,
                 conn = snd (WriteMsg (c\<lparr>inbox := rest\<rparr>)
                                  (Elements (set (Elements_node (node r)) - zs)))\<rparr>"
    from ib Suc have po: "poll (conn ?s) = ((None, False), ?c1)"
      by (simp add: poll_Pending)
    have i1: "iterate p ?s = (None, ?s1)"
      using iterate_flush [OF _ st po, of "[]" p]
      by (simp add: flushQueue_def pushBottom_def)
    have nd1: "\<not> isDone ?s1" by (simp add: isDone_def)
    have i2: "iterate p ?s1 = (None, ?t1)"
    proof (cases j)
      case 0
      then have po1: "poll (conn ?s1) = ((?m, True), c\<lparr>inbox := rest\<rparr>)"
        by (simp add: poll_Arrived)
      show ?thesis
        using iterate_hasMsg [OF _ st po1, of "[\<lparr>requestEntry = None, state = reconStateFlushEnded\<rparr>]" p]
        by (simp add: re handleReply_FullElements_lit del: handleReply.simps)
    next
      case (Suc i)
      let ?c2 = "c\<lparr>inbox := replicate i Pending @ Arrived (FullElements zs) # rest\<rparr>"
      from Suc have po1: "poll (conn ?s1) = ((None, False), ?c2)"
        by (simp add: poll_Pending)
      have rc: "recv ?c2 = Some (?m, c\<lparr>inbox := rest\<rparr>)"
        using recv_replicate [of ?c2 i "FullElements zs" rest] by simp
      show ?thesis
        using iterate_wait [OF _ st po1, of "[\<lparr>requestEntry = None, state = reconStateFlushEnded\<rparr>]" p]
        by (simp add: rc re handleReply_FullElements_lit del: handleReply.simps)
    qed
    have nd2: "\<not> isDone ?t1" by (simp add: isDone_def)
    have i3: "iterate p ?t1 = (None, ?t)"
      using iterate_flushEnded [of ?t1 "\<lparr>requestEntry = None, state = reconStateFlushEnded\<rparr>" "[]" p]
      by simp
    show ?thesis
      by (simp add: loop_next [OF nd i1] loop_next [OF nd1 i2] loop_next [OF nd2 i3] loop_done [OF dn])
  qed
qed

lemma handleReply_queues:
  "handleReply p m r s = (e, s') \<Longrightarrow> bottomQ s' = bottomQ s \<and> flushing s' = flushing s"
  by (cases "(p, m, r, s)" rule: handleReply.cases)
    (auto simp: foldl_pushRequest Let_def split: option.splits if_splits prod.splits)

lemma window_inv_iterate:
  assumes inv: "length (bottomQ s) \<le> window p + (if flushing s then 1 else 0)"
      "flushing s \<longrightarrow> (\<exists>b \<in> set (bottomQ s). state b = reconStateFlushEnded)"
    and nd: "\<not> isDone s" and it: "iterate p s = (e, s')"
  shows "length (bottomQ s') \<le> window p + (if flushing s' then 1 else 0)
         \<and> (flushing s' \<longrightarrow> (\<exists>b \<in> set (bottomQ s'). state b = reconStateFlushEnded))"
proof (cases "bottomQ s")
  case Nil
  with nd obtain r rs where rq: "requestQ s = r # rs"
    by (cases "requestQ s") (auto simp: isDone_def)
  from it have "sendRequest p (Some r) (s\<lparr>requestQ := rs\<rparr>) = (e, s')"
    by (simp add: iterate_empty [OF Nil rq])
  from sendRequest_Some [OF this] Nil inv show ?thesis
    by (auto simp: window_def)
next
  case (Cons b bs)
  show ?thesis
  proof (cases "state b")
    case reconStateFlushEnded
    from it have "s' = s\<lparr>bottomQ := bs, flushing := False\<rparr>"
      by (simp add: iterate_flushEnded [OF Cons reconStateFlushEnded])
    with Cons inv show ?thesis by (auto split: if_splits)
  next
    case reconStateBottom
    obtain m h c1 where po: "poll (conn s) = ((m, h), c1)"
      by (metis prod.exhaust)
    from inv Cons reconStateBottom
    have popped: "length bs \<le> window p + (if flushing s then 1 else 0)
         \<and> (flushing s \<longrightarrow> (\<exists>b \<in> set bs. state b = reconStateFlushEnded))"
      by (auto split: if_splits)
    show ?thesis
    proof (cases h)
      case True
      with it po have "handleReply p m (requestEntry b) (s\<lparr>conn := c1, bottomQ := bs\<rparr>) = (e, s')"
        by (simp add: iterate_hasMsg [OF Cons reconStateBottom])
      from handleReply_queues [OF this] popped show ?thesis by simp
    next
      case False
      from po False have po': "poll (conn s) = ((m, False), c1)" by simp
      show ?thesis
      proof (cases "int (length (bottomQ s)) > MaxOutstandingReconRequests p \<or> requestQ s = []")
        case cond: True
        show ?thesis
        proof (cases "flushing s")
          case fl: False
          from it have "s' = flushQueue (s\<lparr>conn := c1\<rparr>)"
            by (simp add: iterate_flush [OF Cons reconStateBottom po' cond fl])
          with inv fl show ?thesis
            by (auto simp: flushQueue_def pushBottom_def)
        next
          case fl: True
          note w = iterate_wait [OF Cons reconStateBottom po' cond fl]
          show ?thesis
          proof (cases "recv c1")
            case None
            with it w have "s' = s\<lparr>conn := c1, bottomQ := bs\<rparr>" by simp
            with popped show ?thesis by simp
          next
            case (Some mc)
            with it w have "handleReply p (fst mc) (requestEntry b) (s\<lparr>bottomQ := bs, conn := snd mc\<rparr>) = (e, s')"
              by (simp add: split_def)
            from handleReply_queues [OF this] popped show ?thesis by simp
          qed
        qed
      next
        case ncond: False
        then obtain r rs where rq: "requestQ s = r # rs"
          by (cases "requestQ s") auto
        from ncond have nc: "\<not> int (length (bottomQ s)) > MaxOutstandingReconRequests p" by simp
        from it have "sendRequest p (Some r) (s\<lparr>conn := c1, requestQ := rs\<rparr>) = (e, s')"
          by (simp add: iterate_pipeline [OF Cons reconStateBottom po' nc rq])
        from sendRequest_Some [OF this] inv nc show ?thesis
          by (auto simp: window_def)
      qed
    qed
  qed
qed

lemma window_inv_iterations:
  assumes "length (bottomQ s) \<le> window p + (if flushing s then 1 else 0)"
      "flushing s \<longrightarrow> (\<exists>b \<in> set (bottomQ s). state b = reconStateFlushEnded)"
  shows "length (bottomQ (snd (iterations n p s)))
           \<le> window p + (if flushing (snd (iterations n p s)) then 1 else 0)
         \<and> (flushing (snd (iterations n p s)) \<longrightarrow>
              (\<exists>b \<in> set (bottomQ (snd (iterations n p s))). state b = reconStateFlushEnded))"
  using assms
proof (induction n arbitrary: s)
  case 0
  then show ?case by simp
next
  case (Suc n)
  show ?case
  proof (cases "isDone s")
    case True
    with Suc.prems show ?thesis by simp
  next
    case False
    obtain e s' where it: "iterate p s = (e, s')" by (metis prod.exhaust)
    note step = window_inv_iterate [OF Suc.prems False it]
    show ?thesis
    proof (cases e)
      case None
      with False it Suc.IH [of s'] step show ?thesis by simp
    next
      case (Some a)
      with False it step show ?thesis by simp
    qed
  qed
qed

lemma inflight_le:
  assumes "length (bottomQ s) \<le> w + (if flushing s then 1 else 0)"
      "flushing s \<longrightarrow> (\<exists>b \<in> set (bottomQ s). state b = reconStateFlushEnded)"
  shows "inflight s \<le> w"
proof (cases "flushing s")
  case False
  have "inflight s \<le> length (bottomQ s)" by (simp add: inflight_def)
  with assms False show ?thesis by simp
next
  case True
  with assms obtain b where "b \<in> set (bottomQ s)" "\<not> state b = reconStateBottom" by auto
  then have "inflight s < length (bottomQ s)"
    unfolding inflight_def by (rule length_filter_less)
  with assms True show ?thesis by simp
qed

lemma loop_is_iterations: "\<exists>n. loop p s = iterations n p s"
proof (induction p s rule: loop.induct)
  case (1 p recon)
  show ?case
  proof (cases "isDone recon")
    case True
    then have "loop p recon = iterations 0 p recon" by (simp add: loop_done)
    then show ?thesis ..
  next
    case False
    obtain e s' where it: "iterate p recon = (e, s')" by (metis prod.exhaust)
    show ?thesis
    proof (cases e)
      case None
      from "1.IH" [OF False it [symmetric] None] obtain n where "loop p s' = iterations n p s'"
        by auto
      with False it None have "loop p recon = iterations (Suc n) p recon"
        by (simp add: loop_next)
      then show ?thesis ..
    next
      case (Some a)
      with False it have "loop p recon = iterations (Suc 0) p recon"
        by (simp add: loop_stop)
      then show ?thesis ..
    qed
  qed
qed

lemma poll_frame:
  "poll c = (x, c1) \<Longrightarrow> writes c1 = writes c \<and> remoteAddr c1 = remoteAddr c"
  by (auto simp: poll_def split: list.splits arrival.splits if_splits)

lemma recv_frame:
  "recv c = Some (x, c1) \<Longrightarrow> writes c1 = writes c \<and> remoteAddr c1 = remoteAddr c"
  by (auto simp: recv_def split: option.splits if_splits)

lemma quiet_refl: "quiet c c"
  by (simp add: quiet_def)

lemma quiet_same: "writes c' = writes c \<Longrightarrow> remoteAddr c' = remoteAddr c \<Longrightarrow> quiet c c'"
  by (simp add: quiet_def sent_def)

lemma quiet_trans: "quiet a b \<Longrightarrow> quiet b c \<Longrightarrow> quiet a c"
  by (auto simp: quiet_def)

lemma quiet_WriteMsg: "m \<noteq> Done \<Longrightarrow> quiet c (snd (WriteMsg c m))"
  by (simp add: quiet_def WriteMsg_sent)

lemma sendRequest_quiet:
  "sendRequest p r s = (e, s') \<Longrightarrow> quiet (conn s) (conn s')"
proof (cases r)
  case None
  then show "sendRequest p r s = (e, s') \<Longrightarrow> quiet (conn s) (conn s')"
    by (auto simp: sendRequest_def quiet_refl)
next
  case (Some a)
  then show "sendRequest p r s = (e, s') \<Longrightarrow> quiet (conn s) (conn s')"
    by (auto simp: sendRequest_eq intro!: quiet_WriteMsg)
qed

lemma handleReply_quiet:
  "handleReply p m r s = (e, s') \<Longrightarrow> quiet (conn s) (conn s')"
  by (cases "(p, m, r, s)" rule: handleReply.cases)
    (auto simp: foldl_pushRequest Let_def split_def quiet_refl
      split: option.splits if_splits intro!: quiet_WriteMsg)

lemma iterate_quiet:
  assumes nd: "\<not> isDone s" and it: "iterate p s = (e, s')"
  shows "quiet (conn s) (conn s')"
proof (cases "bottomQ s")
  case Nil
  with nd obtain r rs where rq: "requestQ s = r # rs"
    by (cases "requestQ s") (auto simp: isDone_def)
  from it have "sendRequest p (Some r) (s\<lparr>requestQ := rs\<rparr>) = (e, s')"
    by (simp add: iterate_empty [OF Nil rq])
  from sendRequest_quiet [OF this] show ?thesis by simp
next
  case (Cons b bs)
  show ?thesis
  proof (cases "state b")
    case reconStateFlushEnded
    from it have "s' = s\<lparr>bottomQ := bs, flushing := False\<rparr>"
      by (simp add: iterate_flushEnded [OF Cons reconStateFlushEnded])
    then show ?thesis by (simp add: quiet_refl)
  next
    case reconStateBottom
    obtain m h c1 where po: "poll (conn s) = ((m, h), c1)"
      by (metis prod.exhaust)
    from poll_frame [OF po] have q1: "quiet (conn s) c1" by (simp add: quiet_same)
    show ?thesis
    proof (cases h)
      case True
      with it po have "handleReply p m (requestEntry b) (s\<lparr>conn := c1, bottomQ := bs\<rparr>) = (e, s')"
        by (simp add: iterate_hasMsg [OF Cons reconStateBottom])
      from handleReply_quiet [OF this] q1 show ?thesis by (auto intro: quiet_trans)
    next
      case False
      from po False have po': "poll (conn s) = ((m, False), c1)" by simp
      show ?thesis
      proof (cases "int (length (bottomQ s)) > MaxOutstandingReconRequests p \<or> requestQ s = []")
        case cond: True
        show ?thesis
        proof (cases "flushing s")
          case fl: False
          from it have "s' = flushQueue (s\<lparr>conn := c1\<rparr>)"
            by (simp add: iterate_flush [OF Cons reconStateBottom po' cond fl])
          with q1 show ?thesis by (simp add: flushQueue_def pushBottom_def)
        next
          case fl: True
          note w = iterate_wait [OF Cons reconStateBottom po' cond fl]
          show ?thesis
          proof (cases "recv c1")
            case None
            with it w have "s' = s\<lparr>conn := c1, bottomQ := bs\<rparr>" by simp
            with q1 show ?thesis by simp
          next
            case (Some mc)
            then have rc: "recv c1 = Some (fst mc, snd mc)" by simp
            from recv_frame [OF rc] have q2: "quiet c1 (snd mc)" by (simp add: quiet_same)
            from Some it w
            have "handleReply p (fst mc) (requestEntry b) (s\<lparr>bottomQ := bs, conn := snd mc\<rparr>) = (e, s')"
              by (simp add: split_def)
            from handleReply_quiet [OF this] q1 q2 show ?thesis by (auto intro: quiet_trans)
          qed
        qed
      next
        case ncond: False
        then obtain r rs where rq: "requestQ s = r # rs"
          by (cases "requestQ s") auto
        from ncond have nc: "\<not> int (length (bottomQ s)) > MaxOutstandingReconRequests p" by simp
        from it have "sendRequest p (Some r) (s\<lparr>conn := c1, requestQ := rs\<rparr>) = (e, s')"
          by (simp add: iterate_pipeline [OF Cons reconStateBottom po' nc rq])
        from sendRequest_quiet [OF this] q1 show ?thesis by (auto intro: quiet_trans)
      qed
    qed
  qed
qed

lemma loop_quiet: "loop p s = (e, s') \<Longrightarrow> quiet (conn s) (conn s')"
proof (induction p s rule: loop.induct)
  case (1 p recon)
  show ?case
  proof (cases "isDone recon")
    case True
    with "1.prems" show ?thesis by (simp add: loop_done quiet_refl)
  next
    case False
    obtain r t where it: "iterate p recon = (r, t)" by (metis prod.exhaust)
    note q = iterate_quiet [OF False it]
    show ?thesis
    proof (cases r)
      case None
      with False it "1.prems" have "loop p t = (e, s')" by (simp add: loop_next)
      from "1.IH" [OF False it [symmetric] None this] q show ?thesis
        by (rule quiet_trans [rotated])
    next
      case (Some a)
      with False it "1.prems" q show ?thesis by (simp add: loop_stop)
    qed
  qed
qed

lemma loop_None_isDone: "loop p s = (None, s') \<Longrightarrow> isDone s'"
proof (induction p s rule: loop.induct)
  case (1 p recon)
  show ?case
  proof (cases "isDone recon")
    case True
    with "1.prems" show ?thesis by (simp add: loop_done)
  next
    case False
    obtain r t where it: "iterate p recon = (r, t)" by (metis prod.exhaust)
    show ?thesis
    proof (cases r)
      case None
      with False it "1.prems" have "loop p t = (None, s')" by (simp add: loop_next)
      from "1.IH" [OF False it [symmetric] None this] show ?thesis .
    next
      case (Some a)
      with False it "1.prems" show ?thesis by (simp add: loop_stop)
    qed
  qed
qed

lemma interactWithClient_Root_error:
  "Root p = Inl err \<Longrightarrow> interactWithClient p c cfg bits = (Some (Error err), p, c)"
  by (simp add: interactWithClient_def)

lemma interactWithClient_stop:
  assumes "Root p = Inr root"
    and "loop p \<lparr>requestQ = [\<lparr>node = root, key = bits\<rparr>], bottomQ = [], rcvrSet = {},
                  flushing = False, conn = c\<rparr> = (Some e, recon)"
  shows "interactWithClient p c cfg bits = (Some e, p, conn recon)"
  using assms by (simp add: interactWithClient_def pushRequest_def NewZSet_def)

lemma interactWithClient_done:
  assumes "Root p = Inr root"
    and "loop p \<lparr>requestQ = [\<lparr>node = root, key = bits\<rparr>], bottomQ = [], rcvrSet = {},
                  flushing = False, conn = c\<rparr> = (None, recon)"
  shows "interactWithClient p c cfg bits =
           (None,
            (if rcvrSet recon = {} then p
             else p\<lparr>RecoverChan := RecoverChan p @
                      [\<lparr>RemoteAddr = remoteAddr (conn recon), RemoteConfig = [],
                        RemoteElements = rcvrSet recon\<rparr>]\<rparr>),
            snd (WriteMsg (conn recon) Done))"
  using assms
  by (simp add: interactWithClient_def pushRequest_def NewZSet_def Items_def split_def)

lemma first_pass:
  "iterate p \<lparr>requestQ = [r], bottomQ = [], rcvrSet = R, flushing = f, conn = c\<rparr> =
     (None, \<lparr>requestQ = [], bottomQ = [\<lparr>requestEntry = Some r, state = reconStateBottom\<rparr>],
             rcvrSet = R, flushing = f,
             conn = snd (WriteMsg c
                 (if IsLeaf (node r) \<or> Size (node r) < MBar p
                  then ReconRqstFull (key r) (NewZSet (Elements_node (node r)))
                  else ReconRqstPoly (key r) (Size (node r)) (SValues (node r))))\<rparr>)"
  using iterate_empty [of "\<lparr>requestQ = [r], bottomQ = [], rcvrSet = R, flushing = f, conn = c\<rparr>" r "[]" p]
  by (simp add: sendRequest_eq)

lemma loop_SyncFail_leaf:
  assumes bq: "bottomQ s = b # bs" and st: "state b = reconStateBottom"
    and re: "requestEntry b = Some req" and lf: "IsLeaf (node req)"
    and ib: "inbox (conn s) = Arrived SyncFail # rest"
  shows "loop p s = (Some (Error SyncfailAtLeaf), s\<lparr>conn := (conn s)\<lparr>inbox := rest\<rparr>, bottomQ := bs\<rparr>)"
proof -
  have nd: "\<not> isDone s" using bq by (simp add: isDone_def)
  from ib have po: "poll (conn s) = ((Some SyncFail, True), (conn s)\<lparr>inbox := rest\<rparr>)"
    by (rule poll_Arrived)
  have "iterate p s = (Some (Error SyncfailAtLeaf), s\<lparr>conn := (conn s)\<lparr>inbox := rest\<rparr>, bottomQ := bs\<rparr>)"
    by (simp add: iterate_hasMsg [OF bq st po] re lf)
  with nd show ?thesis by (rule loop_stop)
qed

lemma loop_SyncFail_leaf_late:
  assumes bq: "bottomQ s = b # bs" and st: "state b = reconStateBottom"
    and re: "requestEntry b = Some req" and lf: "IsLeaf (node req)"
    and ib: "inbox (conn s) = replicate k Pending @ Arrived SyncFail # rest"
  shows "fst (loop p s) = Some (Error SyncfailAtLeaf)
         \<and> (\<exists>taken. requestQ s = taken @ requestQ (snd (loop p s)))
         \<and> inbox (conn (snd (loop p s))) = rest
         \<and> (requestQ s = [] \<longrightarrow> conn (snd (loop p s)) = (conn s)\<lparr>inbox := rest\<rparr>)"
  using bq ib
proof (induction k arbitrary: s bs)
  case 0
  then have "inbox (conn s) = Arrived SyncFail # rest" by simp
  from loop_SyncFail_leaf [OF "0.prems"(1) st re lf this, of p]
  show ?case by simp
next
  case (Suc k)
  note bq = Suc.prems(1)
  let ?c1 = "(conn s)\<lparr>inbox := replicate k Pending @ Arrived SyncFail # rest\<rparr>"
  have nd: "\<not> isDone s" using bq by (simp add: isDone_def)
  from Suc.prems(2) have po: "poll (conn s) = ((None, False), ?c1)"
    by (simp add: poll_Pending)
  show ?case
  proof (cases "int (length (bottomQ s)) > MaxOutstandingReconRequests p \<or> requestQ s = []")
    case cond: True
    show ?thesis
    proof (cases "flushing s")
      case fl: False
      let ?s1 = "flushQueue (s\<lparr>conn := ?c1\<rparr>)"
      have it: "iterate p s = (None, ?s1)"
        by (rule iterate_flush [OF bq st po cond fl])
      have bq1: "bottomQ ?s1 = b # (bs @ [\<lparr>requestEntry = None, state = reconStateFlushEnded\<rparr>])"
        using bq by (simp add: flushQueue_def pushBottom_def)
      have ib1: "inbox (conn ?s1) = replicate k Pending @ Arrived SyncFail # rest"
        by (simp add: flushQueue_def pushBottom_def)
      from Suc.IH [OF bq1 ib1] show ?thesis
        by (simp add: loop_next [OF nd it] flushQueue_def pushBottom_def)
    next
      case fl: True
      have rc: "recv ?c1 = Some (Some SyncFail, ?c1\<lparr>inbox := rest\<rparr>)"
        by (rule recv_replicate) simp
      have "iterate p s = (Some (Error SyncfailAtLeaf), s\<lparr>bottomQ := bs, conn := (conn s)\<lparr>inbox := rest\<rparr>\<rparr>)"
        by (simp add: iterate_wait [OF bq st po cond fl] rc re lf)
      from loop_stop [OF nd this] show ?thesis by simp
    qed
  next
    case ncond: False
    then obtain r rs where rq: "requestQ s = r # rs"
      by (cases "requestQ s") auto
    from ncond have nc: "\<not> int (length (bottomQ s)) > MaxOutstandingReconRequests p" by simp
    obtain s1 where sr: "sendRequest p (Some r) (s\<lparr>conn := ?c1, requestQ := rs\<rparr>) = (None, s1)"
      by (simp add: sendRequest_eq)
    have it: "iterate p s = (None, s1)"
      by (simp add: iterate_pipeline [OF bq st po nc rq] sr)
    from sendRequest_Some [OF sr] bq
    have bq1: "bottomQ s1 = b # (bs @ [\<lparr>requestEntry = Some r, state = reconStateBottom\<rparr>])"
      and ib1: "inbox (conn s1) = replicate k Pending @ Arrived SyncFail # rest"
      and rq1: "requestQ s1 = rs"
      by simp_all
    from Suc.IH [OF bq1 ib1] obtain taken where
      "fst (loop p s1) = Some (Error SyncfailAtLeaf)"
      "rs = taken @ requestQ (snd (loop p s1))"
      "inbox (conn (snd (loop p s1))) = rest"
      unfolding rq1 by blast
    then have "fst (loop p s1) = Some (Error SyncfailAtLeaf)"
      "requestQ s = (r # taken) @ requestQ (snd (loop p s1))"
      "inbox (conn (snd (loop p s1))) = rest"
      using rq by simp_all
    moreover have "requestQ s \<noteq> []" using rq by simp
    ultimately show ?thesis
      unfolding loop_next [OF nd it] by blast
  qed
qed

lemma sent_inbox [simp]: "sent (c\<lparr>inbox := x\<rparr>) = sent c"
  by (simp add: sent_def)

lemma session_single_FullElements:
  assumes rt: "Root p = Inr root" and lf: "IsLeaf root"
    and ib: "inbox c = replicate k Pending @ Arrived (FullElements zs) # rest"
  shows "interactWithClient p c cfg bits =
           (None,
            (if zs - set (Elements_node root) = {} then p
             else p\<lparr>RecoverChan := RecoverChan p @
                      [\<lparr>RemoteAddr = remoteAddr c, RemoteConfig = [],
                        RemoteElements = zs - set (Elements_node root)\<rparr>]\<rparr>),
            snd (WriteMsg
                  (snd (WriteMsg
                         ((snd (WriteMsg c (ReconRqstFull bits (set (Elements_node root)))))
                            \<lparr>inbox := rest\<rparr>)
                         (Elements (set (Elements_node root) - zs))))
                  Done))"
proof -
  let ?r = "\<lparr>node = root, key = bits\<rparr>"
  let ?s0 = "\<lparr>requestQ = [?r], bottomQ = [], rcvrSet = {}, flushing = False, conn = c\<rparr>"
  let ?c1 = "snd (WriteMsg c (ReconRqstFull bits (set (Elements_node root))))"
  let ?b = "\<lparr>requestEntry = Some ?r, state = reconStateBottom\<rparr>"
  let ?s1 = "\<lparr>requestQ = [], bottomQ = [?b], rcvrSet = {}, flushing = False, conn = ?c1\<rparr>"
  let ?c2 = "snd (WriteMsg (?c1\<lparr>inbox := rest\<rparr>) (Elements (set (Elements_node root) - zs)))"
  let ?t = "\<lparr>requestQ = [], bottomQ = [], rcvrSet = zs - set (Elements_node root),
             flushing = False, conn = ?c2\<rparr>"
  have nd: "\<not> isDone ?s0" by (simp add: isDone_def)
  from lf have i0: "iterate p ?s0 = (None, ?s1)"
    by (simp add: first_pass NewZSet_def)
  from ib have ib1: "inbox ?c1 = replicate k Pending @ Arrived (FullElements zs) # rest"
    by simp
  have "loop p ?s1 = (None, ?t)"
    using loop_single_FullElements [OF _ _ ib1, of ?b ?r p "{}"] by simp
  then have "loop p ?s0 = (None, ?t)"
    by (simp add: loop_next [OF nd i0])
  from interactWithClient_done [OF rt this, of cfg] show ?thesis
    by simp
qed

section \<open>The claims about the session\<close>

lemmas session_defs =
  isDone_def iterate_def topBottom_def popRequest_def popBottom_def sendRequest_def
  pushBottom_def pushRequest_def poll_def recv_def WriteMsg_def flushQueue_def NewZSet_def
  ZSetDiff_def AddAll_def Items_def Let_def

lemmas example_defs = example_peer_def example_start_def example_tree_def

text \<open>
  Claim C5. \<^verbatim>\<open>sendRequest\<close> on a request entry writes one message: if the entry's node
  is a leaf or its size is below \<^verbatim>\<open>MBar\<close>, a \<^verbatim>\<open>ReconRqstFull\<close> with the entry's key as
  prefix and the set of all elements of the node; otherwise a \<^verbatim>\<open>ReconRqstPoly\<close> with the
  key, the node's size and the node's sample values. It sets no error and appends the
  entry to the bottom queue in state \<^verbatim>\<open>reconStateBottom\<close>.
\<close>

theorem sendRequest_policy:
  "fst (sendRequest p (Some req) rwc) = None
   \<and> sent (conn (snd (sendRequest p (Some req) rwc))) =
       sent (conn rwc) @
         [if IsLeaf (node req) \<or> Size (node req) < MBar p
          then ReconRqstFull (key req) (set (Elements_node (node req)))
          else ReconRqstPoly (key req) (Size (node req)) (SValues (node req))]
   \<and> bottomQ (snd (sendRequest p (Some req) rwc)) =
       bottomQ rwc @ [\<lparr>requestEntry = Some req, state = reconStateBottom\<rparr>]"
  by (simp add: sendRequest_eq WriteMsg_sent NewZSet_def)

theorem sendRequest_policy_witness:
  "sent (conn (snd (sendRequest example_peer (Some \<lparr>node = example_tree, key = []\<rparr>)
                     example_start)))
     = [ReconRqstPoly [] 2 []]
   \<and> sent (conn (snd (sendRequest (example_peer\<lparr>MBar := 3\<rparr>)
                          (Some \<lparr>node = example_tree, key = []\<rparr>) example_start)))
     = [ReconRqstFull [] {}]
   \<and> sent (conn (snd (sendRequest example_peer
                          (Some \<lparr>node = hd (Children example_tree), key = [False]\<rparr>)
                          example_start)))
     = [ReconRqstFull [False] {\<lparr>P = 5, Z = 1\<rparr>}]"
  using sendRequest_policy [of example_peer "\<lparr>node = example_tree, key = []\<rparr>" example_start]
    sendRequest_policy [of "example_peer\<lparr>MBar := 3\<rparr>" "\<lparr>node = example_tree, key = []\<rparr>"
      example_start]
    sendRequest_policy [of example_peer "\<lparr>node = hd (Children example_tree), key = [False]\<rparr>"
      example_start]
  by (simp add: example_defs sent_def)

text \<open>
  Claim C10. In a pass of the loop (so \<^verbatim>\<open>isDone\<close> is false) in which \<^verbatim>\<open>topBottom\<close>
  returns nil, the request queue is not empty: \<^verbatim>\<open>popRequest\<close> returns its first entry
  and not nil, the pass is \<^verbatim>\<open>sendRequest\<close> on that entry, and it ends without a panic
  or an error.
\<close>

theorem popRequest_not_nil:
  assumes "\<not> isDone rwc" and "topBottom rwc = None"
  shows "\<exists>req rest. requestQ rwc = req # rest
           \<and> popRequest rwc = (Some req, rwc\<lparr>requestQ := rest\<rparr>)
           \<and> iterate p rwc = sendRequest p (Some req) (rwc\<lparr>requestQ := rest\<rparr>)
           \<and> fst (iterate p rwc) = None"
proof -
  from assms(2) have bq: "bottomQ rwc = []"
    by (simp add: topBottom_def split: list.splits)
  with assms(1) obtain req rest where rq: "requestQ rwc = req # rest"
    by (cases "requestQ rwc") (auto simp: isDone_def)
  have "popRequest rwc = (Some req, rwc\<lparr>requestQ := rest\<rparr>)"
    using rq by (simp add: popRequest_def)
  moreover have "iterate p rwc = sendRequest p (Some req) (rwc\<lparr>requestQ := rest\<rparr>)"
    by (rule iterate_empty [OF bq rq])
  ultimately show ?thesis using rq by (simp add: sendRequest_eq)
qed

theorem popRequest_not_nil_witness:
  "\<not> isDone example_start \<and> topBottom example_start = None
   \<and> popRequest example_start
       = (Some \<lparr>node = example_tree, key = []\<rparr>, example_start\<lparr>requestQ := []\<rparr>)
   \<and> fst (iterate example_peer example_start) = None"
  using popRequest_not_nil [of example_start example_peer]
  by (auto simp: example_start_def isDone_def topBottom_def)

text \<open>
  Claim C1, as amended. A session starts with an empty bottom queue and not flushing.
  With \<^verbatim>\<open>MaxOutstandingReconRequests\<close> = \<open>k\<close>, after any number of passes of the loop, and
  when the loop ends, the number of requests in the bottom queue that wait for their
  reply is at most \<open>max k 0 + 1\<close>. The test that stops the sending,
  \<^verbatim>\<open>len(recon.bottomQ) > p.MaxOutstandingReconRequests\<close>, is made before the next request
  is sent, so a request is still sent while the queue holds \<open>k\<close> entries.
\<close>

theorem inflight_bound:
  assumes "bottomQ s0 = []" and "\<not> flushing s0"
  shows "inflight (snd (iterations n p s0)) \<le> nat (max 0 (MaxOutstandingReconRequests p)) + 1
         \<and> inflight (snd (loop p s0)) \<le> nat (max 0 (MaxOutstandingReconRequests p)) + 1"
proof -
  have start: "length (bottomQ s0) \<le> window p + (if flushing s0 then 1 else 0)"
    "flushing s0 \<longrightarrow> (\<exists>b \<in> set (bottomQ s0). state b = reconStateFlushEnded)"
    using assms by simp_all
  have "inflight (snd (iterations k p s0)) \<le> window p" for k
    using window_inv_iterations [OF start, of k] by (intro inflight_le) simp_all
  moreover obtain k where "loop p s0 = iterations k p s0"
    using loop_is_iterations by blast
  ultimately show ?thesis by (simp add: window_def)
qed

theorem inflight_bound_witness:
  "bottomQ example_start = [] \<and> \<not> flushing example_start
   \<and> inflight (snd (iterations 4 example_peer example_start)) \<le> 2"
  using inflight_bound [of example_start 4 example_peer]
  by (simp add: example_start_def example_peer_def)

text \<open>
  The bound \<open>k\<close> itself does not hold. In the sample session \<open>k\<close> is 1; after four
  passes (the root's request, its \<^verbatim>\<open>SyncFail\<close>, and the requests for the two children)
  two requests are in flight, and no flush marker has been pushed.
\<close>

theorem inflight_exceeds_max:
  "fst (iterations 4 example_peer example_start) = None
   \<and> inflight (snd (iterations 4 example_peer example_start)) = 2
   \<and> MaxOutstandingReconRequests example_peer = 1
   \<and> \<not> flushing (snd (iterations 4 example_peer example_start))
   \<and> map state (bottomQ (snd (iterations 4 example_peer example_start)))
       = [reconStateBottom, reconStateBottom]
   \<and> \<not> int (inflight (snd (iterations 4 example_peer example_start)))
          \<le> MaxOutstandingReconRequests example_peer"
  by (simp add: numeral_eq_Suc example_defs session_defs inflight_def)

text \<open>
  Claim C3. On a \<^verbatim>\<open>SyncFail\<close> for a request whose node is not a leaf, \<^verbatim>\<open>handleReply\<close>
  appends to the request queue one entry per child of the node, in the order of the
  children and each with the child's own key, and sets no error; for a leaf it returns
  the error and leaves the queues as they are. In the loop, when the oldest request in
  flight is for a leaf and the next message of the remote is \<^verbatim>\<open>SyncFail\<close>, however late
  it arrives and whether it is taken by the non-blocking or the blocking receive, the
  loop ends with that error, and nothing has been added to the request queue: what is
  left of it is its tail. A session whose root is a leaf and whose first message from
  the remote is \<^verbatim>\<open>SyncFail\<close> returns the error, with its one request written and nothing
  else.
\<close>

theorem SyncFail_reply:
  "handleReply p (Some SyncFail) (Some req) rwc =
     (if IsLeaf (node req) then (Some (Error SyncfailAtLeaf), rwc)
      else (None, rwc\<lparr>requestQ := requestQ rwc @
                         map (\<lambda>child. \<lparr>node = child, key = Key child\<rparr>) (Children (node req))\<rparr>))
   \<and> (bottomQ s = b # bs \<and> state b = reconStateBottom \<and> requestEntry b = Some req
        \<and> IsLeaf (node req) \<and> inbox (conn s) = Arrived SyncFail # rest \<longrightarrow>
      loop p s = (Some (Error SyncfailAtLeaf), s\<lparr>conn := (conn s)\<lparr>inbox := rest\<rparr>, bottomQ := bs\<rparr>))
   \<and> (bottomQ s = b # bs \<and> state b = reconStateBottom \<and> requestEntry b = Some req
        \<and> IsLeaf (node req)
        \<and> inbox (conn s) = replicate k Pending @ Arrived SyncFail # rest \<longrightarrow>
      fst (loop p s) = Some (Error SyncfailAtLeaf)
      \<and> (\<exists>taken. requestQ s = taken @ requestQ (snd (loop p s)))
      \<and> inbox (conn (snd (loop p s))) = rest)
   \<and> (Root p = Inr root \<and> IsLeaf root
        \<and> inbox c = replicate k Pending @ Arrived SyncFail # rest \<longrightarrow>
      interactWithClient p c cfg bits =
        (Some (Error SyncfailAtLeaf), p,
         (snd (WriteMsg c (ReconRqstFull bits (set (Elements_node root)))))\<lparr>inbox := rest\<rparr>))"
proof (intro conjI impI)
  show "handleReply p (Some SyncFail) (Some req) rwc =
     (if IsLeaf (node req) then (Some (Error SyncfailAtLeaf), rwc)
      else (None, rwc\<lparr>requestQ := requestQ rwc @
                         map (\<lambda>child. \<lparr>node = child, key = Key child\<rparr>) (Children (node req))\<rparr>))"
    by (rule handleReply_SyncFail_eq)
next
  assume "bottomQ s = b # bs \<and> state b = reconStateBottom \<and> requestEntry b = Some req
        \<and> IsLeaf (node req) \<and> inbox (conn s) = Arrived SyncFail # rest"
  then show "loop p s = (Some (Error SyncfailAtLeaf), s\<lparr>conn := (conn s)\<lparr>inbox := rest\<rparr>, bottomQ := bs\<rparr>)"
    using loop_SyncFail_leaf [of s b bs req rest p] by blast
next
  assume a: "bottomQ s = b # bs \<and> state b = reconStateBottom \<and> requestEntry b = Some req
        \<and> IsLeaf (node req)
        \<and> inbox (conn s) = replicate k Pending @ Arrived SyncFail # rest"
  note late = loop_SyncFail_leaf_late [of s b bs req k rest p]
  from a late show "fst (loop p s) = Some (Error SyncfailAtLeaf)" by blast
  from a late show "\<exists>taken. requestQ s = taken @ requestQ (snd (loop p s))" by blast
  from a late show "inbox (conn (snd (loop p s))) = rest" by blast
next
  assume a: "Root p = Inr root \<and> IsLeaf root
        \<and> inbox c = replicate k Pending @ Arrived SyncFail # rest"
  let ?r = "\<lparr>node = root, key = bits\<rparr>"
  let ?s0 = "\<lparr>requestQ = [?r], bottomQ = [], rcvrSet = {}, flushing = False, conn = c\<rparr>"
  let ?c1 = "snd (WriteMsg c (ReconRqstFull bits (set (Elements_node root))))"
  let ?b = "\<lparr>requestEntry = Some ?r, state = reconStateBottom\<rparr>"
  let ?s1 = "\<lparr>requestQ = [], bottomQ = [?b], rcvrSet = {}, flushing = False, conn = ?c1\<rparr>"
  have nd: "\<not> isDone ?s0" by (simp add: isDone_def)
  from a have i0: "iterate p ?s0 = (None, ?s1)"
    by (simp add: first_pass NewZSet_def)
  from a have ib: "inbox (conn ?s1) = replicate k Pending @ Arrived SyncFail # rest" by simp
  from a loop_SyncFail_leaf_late [OF _ _ _ _ ib, of ?b "[]" ?r p]
  have "fst (loop p ?s1) = Some (Error SyncfailAtLeaf)"
    and "conn (snd (loop p ?s1)) = ?c1\<lparr>inbox := rest\<rparr>"
    by simp_all
  then have "loop p ?s1 = (Some (Error SyncfailAtLeaf), snd (loop p ?s1))"
    and "conn (snd (loop p ?s1)) = ?c1\<lparr>inbox := rest\<rparr>"
    by (simp_all add: prod_eq_iff)
  then have "loop p ?s0 = (Some (Error SyncfailAtLeaf), snd (loop p ?s1))"
    and "conn (snd (loop p ?s1)) = ?c1\<lparr>inbox := rest\<rparr>"
    by (simp_all add: loop_next [OF nd i0])
  with a interactWithClient_stop [of p root bits c "Error SyncfailAtLeaf" "snd (loop p ?s1)" cfg]
  show "interactWithClient p c cfg bits =
        (Some (Error SyncfailAtLeaf), p, ?c1\<lparr>inbox := rest\<rparr>)"
    by simp
qed

theorem SyncFail_reply_witness:
  "handleReply example_peer (Some SyncFail) (Some \<lparr>node = example_tree, key = []\<rparr>)
       (example_start\<lparr>requestQ := []\<rparr>) =
     (None, example_start\<lparr>requestQ :=
        [\<lparr>node = PrefixNode True 1 [\<lparr>P = 5, Z = 1\<rparr>] [] [] [False], key = [False]\<rparr>,
         \<lparr>node = PrefixNode True 1 [\<lparr>P = 5, Z = 2\<rparr>] [] [] [True], key = [True]\<rparr>]\<rparr>)
   \<and> fst (loop example_peer
        (example_start\<lparr>requestQ := [],
           bottomQ := [\<lparr>requestEntry = Some \<lparr>node = hd (Children example_tree), key = [False]\<rparr>,
                        state = reconStateBottom\<rparr>]\<rparr>))
       = Some (Error SyncfailAtLeaf)
   \<and> fst (loop example_peer
        \<lparr>requestQ = [\<lparr>node = hd (tl (Children example_tree)), key = [True]\<rparr>],
         bottomQ = [\<lparr>requestEntry = Some \<lparr>node = hd (Children example_tree), key = [False]\<rparr>,
                      state = reconStateBottom\<rparr>],
         rcvrSet = {}, flushing = False,
         conn = \<lparr>remoteAddr = ''remote'',
                 inbox = [Pending, Pending, Pending, Arrived SyncFail, Pending],
                 hangs = False, werrs = [], writes = []\<rparr>\<rparr>)
       = Some (Error SyncfailAtLeaf)
   \<and> interactWithClient (example_peer\<lparr>Root := Inr (hd (Children example_tree))\<rparr>)
         \<lparr>remoteAddr = ''remote'', inbox = [Pending, Pending, Arrived SyncFail, Pending],
          hangs = False, werrs = [], writes = []\<rparr> [] [False] =
       (Some (Error SyncfailAtLeaf), example_peer\<lparr>Root := Inr (hd (Children example_tree))\<rparr>,
        \<lparr>remoteAddr = ''remote'', inbox = [Pending], hangs = False, werrs = [],
         writes = [(ReconRqstFull [False] {\<lparr>P = 5, Z = 1\<rparr>}, None)]\<rparr>)"
proof -
  let ?leaf = "hd (Children example_tree)"
  let ?b = "\<lparr>requestEntry = Some \<lparr>node = ?leaf, key = [False]\<rparr>, state = reconStateBottom\<rparr>"
  let ?s2 = "example_start\<lparr>requestQ := [], bottomQ := [?b]\<rparr>"
  let ?s3 = "\<lparr>requestQ = [\<lparr>node = hd (tl (Children example_tree)), key = [True]\<rparr>],
         bottomQ = [?b], rcvrSet = {}, flushing = False,
         conn = \<lparr>remoteAddr = ''remote'',
                 inbox = [Pending, Pending, Pending, Arrived SyncFail, Pending],
                 hangs = False, werrs = [], writes = []\<rparr>\<rparr>"
  let ?c4 = "\<lparr>remoteAddr = ''remote'', inbox = [Pending, Pending, Arrived SyncFail, Pending],
          hangs = False, werrs = [], writes = []\<rparr>"
  have 1: "handleReply example_peer (Some SyncFail) (Some \<lparr>node = example_tree, key = []\<rparr>)
       (example_start\<lparr>requestQ := []\<rparr>) =
     (None, example_start\<lparr>requestQ :=
        [\<lparr>node = PrefixNode True 1 [\<lparr>P = 5, Z = 1\<rparr>] [] [] [False], key = [False]\<rparr>,
         \<lparr>node = PrefixNode True 1 [\<lparr>P = 5, Z = 2\<rparr>] [] [] [True], key = [True]\<rparr>]\<rparr>)"
    using SyncFail_reply [where p = example_peer and req = "\<lparr>node = example_tree, key = []\<rparr>"
      and rwc = "example_start\<lparr>requestQ := []\<rparr>"]
    by (simp add: example_defs)
  have 2: "fst (loop example_peer ?s2) = Some (Error SyncfailAtLeaf)"
    using SyncFail_reply [where p = example_peer and req = "\<lparr>node = ?leaf, key = [False]\<rparr>"
      and s = ?s2 and b = ?b and bs = "[]" and rest = "[Pending]"]
    by (simp add: example_defs)
  have 3: "fst (loop example_peer ?s3) = Some (Error SyncfailAtLeaf)"
    using SyncFail_reply [where p = example_peer and req = "\<lparr>node = ?leaf, key = [False]\<rparr>"
      and s = ?s3 and b = ?b and bs = "[]" and k = 3 and rest = "[Pending]"]
    by (simp add: example_defs numeral_eq_Suc)
  have 4: "interactWithClient (example_peer\<lparr>Root := Inr ?leaf\<rparr>) ?c4 [] [False] =
       (Some (Error SyncfailAtLeaf), example_peer\<lparr>Root := Inr ?leaf\<rparr>,
        \<lparr>remoteAddr = ''remote'', inbox = [Pending], hangs = False, werrs = [],
         writes = [(ReconRqstFull [False] {\<lparr>P = 5, Z = 1\<rparr>}, None)]\<rparr>)"
    using SyncFail_reply [where p = "example_peer\<lparr>Root := Inr ?leaf\<rparr>"
      and root = ?leaf and c = ?c4 and k = 2 and rest = "[Pending]"
      and cfg = "[]" and bits = "[False]"]
    by (simp add: example_defs WriteMsg_def numeral_eq_Suc)
  from 1 2 3 4 show ?thesis by blast
qed

text \<open>
  Claim C2. On \<^verbatim>\<open>FullElements\<close> with the set \<open>zs\<close> for a request entry, \<^verbatim>\<open>handleReply\<close>
  writes one message, \<^verbatim>\<open>Elements\<close> with exactly the elements of the entry's node that are
  not in \<open>zs\<close>, adds to \<^verbatim>\<open>rcvrSet\<close> exactly the elements of \<open>zs\<close> that are not at the node,
  sets no error and leaves the queues as they are. A session whose root is a leaf and
  whose first message from the remote is \<^verbatim>\<open>FullElements\<close> with \<open>zs\<close>, however late it
  arrives, writes the full request, the \<^verbatim>\<open>Elements\<close> message with the elements only the
  local side has, and \<^verbatim>\<open>Done\<close>; it returns no error and sends one \<^verbatim>\<open>Recover\<close> event with
  precisely the elements only the remote has, or none when there is no such element.
\<close>

theorem FullElements_reply:
  "fst (handleReply p (Some (FullElements zs)) (Some req) rwc) = None
   \<and> sent (conn (snd (handleReply p (Some (FullElements zs)) (Some req) rwc))) =
       sent (conn rwc) @ [Elements (set (Elements_node (node req)) - zs)]
   \<and> rcvrSet (snd (handleReply p (Some (FullElements zs)) (Some req) rwc)) =
       rcvrSet rwc \<union> (zs - set (Elements_node (node req)))
   \<and> requestQ (snd (handleReply p (Some (FullElements zs)) (Some req) rwc)) = requestQ rwc
   \<and> bottomQ (snd (handleReply p (Some (FullElements zs)) (Some req) rwc)) = bottomQ rwc
   \<and> (Root p = Inr root \<and> IsLeaf root
        \<and> inbox c = replicate k Pending @ Arrived (FullElements zs) # rest \<longrightarrow>
      (\<exists>c'. interactWithClient p c cfg bits =
              (None,
               (if zs - set (Elements_node root) = {} then p
                else p\<lparr>RecoverChan := RecoverChan p @
                         [\<lparr>RemoteAddr = remoteAddr c, RemoteConfig = [],
                           RemoteElements = zs - set (Elements_node root)\<rparr>]\<rparr>),
               c')
            \<and> sent c' = sent c @ [ReconRqstFull bits (set (Elements_node root)),
                                  Elements (set (Elements_node root) - zs), Done]
            \<and> inbox c' = rest))"
proof (intro conjI impI)
  assume a: "Root p = Inr root \<and> IsLeaf root
        \<and> inbox c = replicate k Pending @ Arrived (FullElements zs) # rest"
  then have "interactWithClient p c cfg bits =
           (None,
            (if zs - set (Elements_node root) = {} then p
             else p\<lparr>RecoverChan := RecoverChan p @
                      [\<lparr>RemoteAddr = remoteAddr c, RemoteConfig = [],
                        RemoteElements = zs - set (Elements_node root)\<rparr>]\<rparr>),
            snd (WriteMsg
                  (snd (WriteMsg
                         ((snd (WriteMsg c (ReconRqstFull bits (set (Elements_node root)))))
                            \<lparr>inbox := rest\<rparr>)
                         (Elements (set (Elements_node root) - zs))))
                  Done))"
    using session_single_FullElements [of p root c k zs rest cfg bits] by blast
  then show "\<exists>c'. interactWithClient p c cfg bits =
              (None,
               (if zs - set (Elements_node root) = {} then p
                else p\<lparr>RecoverChan := RecoverChan p @
                         [\<lparr>RemoteAddr = remoteAddr c, RemoteConfig = [],
                           RemoteElements = zs - set (Elements_node root)\<rparr>]\<rparr>),
               c')
            \<and> sent c' = sent c @ [ReconRqstFull bits (set (Elements_node root)),
                                  Elements (set (Elements_node root) - zs), Done]
            \<and> inbox c' = rest"
    by (simp add: WriteMsg_sent)
qed (simp_all add: handleReply_FullElements_eq WriteMsg_sent del: handleReply.simps)

theorem FullElements_reply_witness:
  "sent (conn (snd (handleReply
            (example_peer\<lparr>Root := Inr (PrefixNode True 2 [\<lparr>P = 5, Z = 1\<rparr>, \<lparr>P = 5, Z = 2\<rparr>] [] [] [])\<rparr>)
            (Some (FullElements {\<lparr>P = 5, Z = 2\<rparr>, \<lparr>P = 5, Z = 3\<rparr>}))
            (Some \<lparr>node = PrefixNode True 2 [\<lparr>P = 5, Z = 1\<rparr>, \<lparr>P = 5, Z = 2\<rparr>] [] [] [], key = []\<rparr>)
            example_start)))
     = [Elements {\<lparr>P = 5, Z = 1\<rparr>}]
   \<and> (\<exists>c'. interactWithClient
             (example_peer\<lparr>Root := Inr (PrefixNode True 2 [\<lparr>P = 5, Z = 1\<rparr>, \<lparr>P = 5, Z = 2\<rparr>] [] [] [])\<rparr>)
             \<lparr>remoteAddr = ''remote'',
              inbox = [Pending, Pending, Arrived (FullElements {\<lparr>P = 5, Z = 2\<rparr>, \<lparr>P = 5, Z = 3\<rparr>})],
              hangs = False, werrs = [], writes = []\<rparr> [] [] =
           (None,
            \<lparr>MBar = 0, MaxOutstandingReconRequests = 1,
             Root = Inr (PrefixNode True 2 [\<lparr>P = 5, Z = 1\<rparr>, \<lparr>P = 5, Z = 2\<rparr>] [] [] []),
             RecoverChan = [\<lparr>RemoteAddr = ''remote'', RemoteConfig = [],
                             RemoteElements = {\<lparr>P = 5, Z = 3\<rparr>}\<rparr>]\<rparr>,
            c')
         \<and> sent c' = [ReconRqstFull [] {\<lparr>P = 5, Z = 1\<rparr>, \<lparr>P = 5, Z = 2\<rparr>},
                       Elements {\<lparr>P = 5, Z = 1\<rparr>}, Done]
         \<and> inbox c' = [])"
proof -
  let ?leaf = "PrefixNode True 2 [\<lparr>P = 5, Z = 1\<rparr>, \<lparr>P = 5, Z = 2\<rparr>] [] [] []"
  let ?zs = "{\<lparr>P = 5, Z = 2\<rparr>, \<lparr>P = 5, Z = 3\<rparr>}"
  let ?c = "\<lparr>remoteAddr = ''remote'', inbox = [Pending, Pending, Arrived (FullElements ?zs)],
             hangs = False, werrs = [], writes = []\<rparr>"
  note inst = FullElements_reply [where p = "example_peer\<lparr>Root := Inr ?leaf\<rparr>"
      and root = ?leaf and zs = ?zs and c = ?c and k = 2 and rest = "[]" and cfg = "[]"
      and bits = "[]" and req = "\<lparr>node = ?leaf, key = []\<rparr>" and rwc = example_start]
  have diff1: "set (Elements_node ?leaf) - ?zs = {\<lparr>P = 5, Z = 1\<rparr>}" by auto
  have diff2: "?zs - set (Elements_node ?leaf) = {\<lparr>P = 5, Z = 3\<rparr>}" by auto
  have hyp: "Root (example_peer\<lparr>Root := Inr ?leaf\<rparr>) = Inr ?leaf \<and> IsLeaf ?leaf
      \<and> inbox ?c = replicate 2 Pending @ Arrived (FullElements ?zs) # []"
    by (simp add: numeral_eq_Suc)
  from inst hyp diff1 diff2 show ?thesis
    by (simp add: example_defs sent_def numeral_eq_Suc del: handleReply.simps)
qed

text \<open>
  Claim C6. Whatever the peer and the connection, \<^verbatim>\<open>interactWithClient\<close> either stops
  with an error (or a panic, or blocked), and then the peer is as before, with no event
  sent on \<^verbatim>\<open>RecoverChan\<close>, and no \<^verbatim>\<open>Done\<close> is among the messages written; or it returns no
  error, and then the loop has run to its end with both queues empty, \<^verbatim>\<open>Done\<close> is the
  last message written and the only \<^verbatim>\<open>Done\<close>, and one \<^verbatim>\<open>Recover\<close> event with the
  accumulated set is sent if that set is not empty and none otherwise.
\<close>

theorem Recover_only_after_success:
  "\<exists>r p' c'. interactWithClient p c cfg bits = (r, p', c')
     \<and> (case r of
          Some e \<Rightarrow> p' = p \<and> (\<exists>ms. sent c' = sent c @ ms \<and> Done \<notin> set ms)
        | None \<Rightarrow>
            (\<exists>root recon ms.
                Root p = Inr root
              \<and> loop p \<lparr>requestQ = [\<lparr>node = root, key = bits\<rparr>], bottomQ = [],
                          rcvrSet = {}, flushing = False, conn = c\<rparr> = (None, recon)
              \<and> isDone recon
              \<and> sent c' = sent c @ ms @ [Done] \<and> Done \<notin> set ms
              \<and> p' = (if rcvrSet recon = {} then p
                      else p\<lparr>RecoverChan := RecoverChan p @
                               [\<lparr>RemoteAddr = remoteAddr c, RemoteConfig = [],
                                 RemoteElements = rcvrSet recon\<rparr>]\<rparr>)))"
proof (cases "Root p")
  case (Inl err)
  then have "interactWithClient p c cfg bits = (Some (Error err), p, c)"
    by (rule interactWithClient_Root_error)
  then show ?thesis by simp
next
  case (Inr root)
  let ?s0 = "\<lparr>requestQ = [\<lparr>node = root, key = bits\<rparr>], bottomQ = [], rcvrSet = {},
              flushing = False, conn = c\<rparr>"
  obtain r recon where lp: "loop p ?s0 = (r, recon)" by (metis prod.exhaust)
  from loop_quiet [OF lp] obtain ms where addr: "remoteAddr (conn recon) = remoteAddr c"
    and ms: "sent (conn recon) = sent c @ ms" "Done \<notin> set ms"
    by (auto simp: quiet_def)
  show ?thesis
  proof (cases r)
    case (Some e)
    with lp have "interactWithClient p c cfg bits = (Some e, p, conn recon)"
      by (simp add: interactWithClient_stop [OF Inr])
    with ms show ?thesis by simp
  next
    case None
    with lp have lp': "loop p ?s0 = (None, recon)" by simp
    from interactWithClient_done [OF Inr lp', of cfg] addr
    have "interactWithClient p c cfg bits =
           (None,
            (if rcvrSet recon = {} then p
             else p\<lparr>RecoverChan := RecoverChan p @
                      [\<lparr>RemoteAddr = remoteAddr c, RemoteConfig = [],
                        RemoteElements = rcvrSet recon\<rparr>]\<rparr>),
            snd (WriteMsg (conn recon) Done))"
      by simp
    moreover have "sent (snd (WriteMsg (conn recon) Done)) = sent c @ ms @ [Done]"
      using ms by (simp add: WriteMsg_sent)
    moreover note loop_None_isDone [OF lp'] lp' Inr ms(2)
    ultimately show ?thesis by auto
  qed
qed

theorem Recover_only_after_success_witness:
  "interactWithClient example_peer (conn example_start) [] [] =
     (Some (Error (UnexpectedMessage None)), example_peer,
      \<lparr>remoteAddr = ''remote'', inbox = [], hangs = False, werrs = [],
       writes = [(ReconRqstPoly [] 2 [], None),
                 (ReconRqstFull [False] {\<lparr>P = 5, Z = 1\<rparr>}, None),
                 (ReconRqstFull [True] {\<lparr>P = 5, Z = 2\<rparr>}, None)]\<rparr>)
   \<and> (\<exists>ms. sent \<lparr>remoteAddr = ''remote'', inbox = [], hangs = False, werrs = [],
               writes = [(ReconRqstPoly [] 2 [], None),
                         (ReconRqstFull [False] {\<lparr>P = 5, Z = 1\<rparr>}, None),
                         (ReconRqstFull [True] {\<lparr>P = 5, Z = 2\<rparr>}, None)]\<rparr>
            = sent (conn example_start) @ ms \<and> Done \<notin> set ms)"
proof -
  have run: "interactWithClient example_peer (conn example_start) [] [] =
     (Some (Error (UnexpectedMessage None)), example_peer,
      \<lparr>remoteAddr = ''remote'', inbox = [], hangs = False, werrs = [],
       writes = [(ReconRqstPoly [] 2 [], None),
                 (ReconRqstFull [False] {\<lparr>P = 5, Z = 1\<rparr>}, None),
                 (ReconRqstFull [True] {\<lparr>P = 5, Z = 2\<rparr>}, None)]\<rparr>)"
    by (simp add: interactWithClient_def loop.simps example_defs session_defs)
  with Recover_only_after_success [of example_peer "conn example_start" "[]" "[]"]
  show ?thesis by simp
qed

text \<open>
  Claim C4 does not hold of the code: the results of \<^verbatim>\<open>WriteMsg\<close> are dropped in
  \<^verbatim>\<open>sendRequest\<close>, in \<^verbatim>\<open>handleReply\<close> and for \<^verbatim>\<open>Done\<close>. On a connection where every write
  fails while one \<^verbatim>\<open>Elements\<close> message of the remote has been read already, the session
  of a one-leaf tree writes its request, goes on to write \<^verbatim>\<open>Done\<close>, sends a \<^verbatim>\<open>Recover\<close>
  event and returns no error.
\<close>

theorem write_failure_ignored:
  "interactWithClient
     \<lparr>MBar = 0, MaxOutstandingReconRequests = 1,
      Root = Inr (PrefixNode True 1 [\<lparr>P = 5, Z = 1\<rparr>] [] [] []), RecoverChan = []\<rparr>
     \<lparr>remoteAddr = ''remote'', inbox = [Arrived (Elements {\<lparr>P = 5, Z = 3\<rparr>})],
      hangs = False, werrs = [True, True], writes = []\<rparr>
     [] [] =
   (None,
    \<lparr>MBar = 0, MaxOutstandingReconRequests = 1,
     Root = Inr (PrefixNode True 1 [\<lparr>P = 5, Z = 1\<rparr>] [] [] []),
     RecoverChan = [\<lparr>RemoteAddr = ''remote'', RemoteConfig = [],
                     RemoteElements = {\<lparr>P = 5, Z = 3\<rparr>}\<rparr>]\<rparr>,
    \<lparr>remoteAddr = ''remote'', inbox = [], hangs = False, werrs = [],
     writes = [(ReconRqstFull [] {\<lparr>P = 5, Z = 1\<rparr>}, Some TransportError),
               (Done, Some TransportError)]\<rparr>)"
  by (simp add: interactWithClient_def loop.simps session_defs)

end
